theory Spec2Isabelle
  imports Main "HOL-Library.Word"
begin

unbundle bit_operations_syntax

section \<open>Data model of \<open>graph_par.c\<close>\<close>

text \<open>
  The program holds adjacency matrices as C arrays \<^verbatim>\<open>int m[n][n]\<close>. A cell is a 32-bit
  \<^verbatim>\<open>int\<close>, a matrix is the list of its rows. Row and column indices are \<^verbatim>\<open>size_t\<close>
  values below \<open>n\<close> and are modelled as natural numbers, as are \<open>n\<close> and the stripe bounds
  \<^verbatim>\<open>stripe*rank\<close> and \<^verbatim>\<open>stripe*(rank+1)\<close>, which are at most \<open>n\<close> for \<open>rank < size\<close>. The one
  place where a C type is too narrow for these numbers is the \<^verbatim>\<open>int\<close> count of the two
  collectives, which receives the \<^verbatim>\<open>size_t\<close> value \<^verbatim>\<open>n * n\<close>: see \<open>mpi_count\<close> below.
\<close>


type_synonym cint = "32 word"
type_synonym matrix = "cint list list"

definition wf_matrix :: "nat \<Rightarrow> matrix \<Rightarrow> bool" where
  "wf_matrix n m = (length m = n \<and> list_all (\<lambda>row. length row = n) m)"

definition bin_matrix :: "matrix \<Rightarrow> bool" where
  "bin_matrix m = list_all (list_all (\<lambda>x. x = 0 \<or> x = 1)) m"

text \<open>The C operators \<^verbatim>\<open>&&\<close> and \<^verbatim>\<open>||\<close> on \<^verbatim>\<open>int\<close> operands: the result is the \<^verbatim>\<open>int\<close> 1 or 0.\<close>

definition c_land :: "cint \<Rightarrow> cint \<Rightarrow> cint" where
  "c_land x y = (if x \<noteq> 0 \<and> y \<noteq> 0 then 1 else 0)"

definition c_lor :: "cint \<Rightarrow> cint \<Rightarrow> cint" where
  "c_lor x y = (if x \<noteq> 0 \<or> y \<noteq> 0 then 1 else 0)"

section \<open>The relaxation sweep\<close>

text \<open>The assignment \<^verbatim>\<open>tmp[i][j] = tmp[i][j] || (tmp[i][k] && tmp[k][j]);\<close>\<close>

definition relax :: "nat \<Rightarrow> nat \<Rightarrow> nat \<Rightarrow> matrix \<Rightarrow> matrix" where
  "relax k i j tmp =
     tmp[i := (tmp ! i)[j := c_lor (tmp ! i ! j) (c_land (tmp ! i ! k) (tmp ! k ! j))]]"

text \<open>
  A counting loop \<^verbatim>\<open>for (size_t x = lo; x < hi; x++) body\<close> over a state that the body
  updates.
\<close>

function for_loop :: "nat \<Rightarrow> nat \<Rightarrow> (nat \<Rightarrow> 's \<Rightarrow> 's) \<Rightarrow> 's \<Rightarrow> 's" where
  "for_loop x hi body s = (if x < hi then for_loop (Suc x) hi body (body x s) else s)"
  by pat_completeness auto
termination
  by (relation "measure (\<lambda>(x, hi, body, s). hi - x)") auto

declare for_loop.simps [simp del]

text \<open>
  The three nested loops of \<^verbatim>\<open>warshall\<close>: over \<open>j\<close>, over the owned rows \<open>i\<close>, over \<open>k\<close>.
  On an \<open>n \<times> n\<close> matrix and with \<open>hi \<le> n\<close> every index that the loops produce is below
  \<open>n\<close>, so every access of \<open>relax\<close> is in range, as it is in the C program. \<open>sweep\<close> is the
  loop nest run in program order, which is what the program does on one thread; what
  \<^verbatim>\<open>#pragma omp parallel for\<close> on the \<open>k\<close> loop allows with more threads is \<open>run_schedule\<close>
  below.
\<close>

definition loop_j :: "nat \<Rightarrow> nat \<Rightarrow> nat \<Rightarrow> matrix \<Rightarrow> matrix" where
  "loop_j n k i tmp = for_loop 0 n (\<lambda>j. relax k i j) tmp"

definition loop_i :: "nat \<Rightarrow> nat \<Rightarrow> nat \<Rightarrow> nat \<Rightarrow> matrix \<Rightarrow> matrix" where
  "loop_i n lo hi k tmp = for_loop lo hi (\<lambda>i. loop_j n k i) tmp"

definition sweep :: "nat \<Rightarrow> nat \<Rightarrow> nat \<Rightarrow> matrix \<Rightarrow> matrix" where
  "sweep n lo hi tmp = for_loop 0 n (\<lambda>k. loop_i n lo hi k) tmp"

section \<open>Distribution, per-worker relaxation, aggregation\<close>

text \<open>
  The coordinator fills its buffer cell by cell from \<open>a\<close>; \<^verbatim>\<open>MPI_Bcast\<close> then sends these
  contents to the buffers of the other workers (\<open>received\<close> below).
\<close>

definition init_copy :: "nat \<Rightarrow> matrix \<Rightarrow> matrix" where
  "init_copy n a = map (\<lambda>i. map (\<lambda>j. a ! i ! j) [0..<n]) [0..<n]"

text \<open>
  \<^verbatim>\<open>int stripe = n/size;\<close> where the global \<^verbatim>\<open>size\<close> is the number of processes
  (named \<open>nprocs\<close> here) and the global \<^verbatim>\<open>rank\<close> the rank of the calling process.
\<close>

definition stripe :: "nat \<Rightarrow> nat \<Rightarrow> nat" where
  "stripe n nprocs = n div nprocs"

text \<open>
  The working copy \<open>tmp\<close> of the worker of rank \<open>rank\<close> when it reaches \<^verbatim>\<open>MPI_Reduce\<close>,
  for a loop nest run in program order on a buffer that holds the coordinator's matrix:
  that matrix, relaxed on the rows \<^verbatim>\<open>stripe*rank\<close> \<open>\<le> i <\<close> \<^verbatim>\<open>stripe*(rank+1)\<close>.
\<close>

definition worker_copy :: "nat \<Rightarrow> nat \<Rightarrow> nat \<Rightarrow> matrix \<Rightarrow> matrix" where
  "worker_copy n nprocs rank a =
     sweep n (stripe n nprocs * rank) (stripe n nprocs * (rank + 1)) (init_copy n a)"

text \<open>\<^verbatim>\<open>MPI_BOR\<close> on two buffers of \<^verbatim>\<open>MPI_INT\<close>: the bitwise or of corresponding cells.\<close>

definition mat_bor :: "matrix \<Rightarrow> matrix \<Rightarrow> matrix" where
  "mat_bor x y = map2 (map2 (OR)) x y"

text \<open>
  The reduction operator of \<^verbatim>\<open>MPI_Reduce(tmp, c, n*n, MPI_INT, MPI_BOR, 0, MPI_COMM_WORLD)\<close>
  applied to whole buffers: the buffer of the root combined, in rank order, with the
  buffers of the other ranks.
\<close>

definition reduce_bor :: "matrix \<Rightarrow> matrix list \<Rightarrow> matrix" where
  "reduce_bor root others = foldl mat_bor root others"

text \<open>
  The bitwise or of the working copies of all ranks, each relaxed in program order. It is
  the matrix \<open>c\<close> that \<^verbatim>\<open>warshall(n, a, c)\<close> leaves on the coordinator (rank 0) when the
  loop nests run in program order and both collectives move all \<open>n * n\<close> cells (lemma
  \<open>warshall_run_program_order\<close>); \<open>warshall_run\<close> below is the run without these two
  conditions.
\<close>

definition warshall :: "nat \<Rightarrow> nat \<Rightarrow> matrix \<Rightarrow> matrix" where
  "warshall n nprocs a =
     reduce_bor (worker_copy n nprocs 0 a)
       (map (\<lambda>rank. worker_copy n nprocs rank a) [1..<nprocs])"

section \<open>The loop nest under \<^verbatim>\<open>#pragma omp parallel for\<close>\<close>

text \<open>
  The pragma stands directly before the loop over \<open>k\<close>. Compiled without OpenMP, or run
  with one thread, the loop nest is \<open>sweep\<close>. With several threads the iterations of
  the \<open>k\<close> loop are shared out among the threads, which work on the same \<open>tmp\<close> without
  synchronisation. An execution is described here at the granularity of one pass of the
  \<open>j\<close> loop: a schedule lists the pairs \<open>(k, i)\<close> in the order in which the passes happen.
\<close>

type_synonym schedule = "(nat \<times> nat) list"

definition run_schedule :: "nat \<Rightarrow> schedule \<Rightarrow> matrix \<Rightarrow> matrix" where
  "run_schedule n sched tmp = foldl (\<lambda>t (k, i). loop_j n k i t) tmp sched"

definition sequential_schedule :: "nat \<Rightarrow> nat \<Rightarrow> nat \<Rightarrow> schedule" where
  "sequential_schedule n lo hi = concat (map (\<lambda>k. map (\<lambda>i. (k, i)) [lo..<hi]) [0..<n])"

text \<open>
  Every pass that a thread of the worker of rank \<open>rank\<close> makes has \<open>k < n\<close> and a row of
  that worker's stripe. \<open>program_order\<close> is the schedule of one thread; \<open>schedules_ok\<close>
  admits, for each rank, any sequence of such passes, which covers every interleaving of
  the threads at this granularity.
\<close>

definition valid_schedule :: "nat \<Rightarrow> nat \<Rightarrow> nat \<Rightarrow> schedule \<Rightarrow> bool" where
  "valid_schedule n lo hi sched = list_all (\<lambda>(k, i). k < n \<and> lo \<le> i \<and> i < hi) sched"

definition program_order :: "nat \<Rightarrow> nat \<Rightarrow> nat \<Rightarrow> schedule" where
  "program_order n nprocs rank =
     sequential_schedule n (stripe n nprocs * rank) (stripe n nprocs * (rank + 1))"

definition schedules_ok :: "nat \<Rightarrow> nat \<Rightarrow> (nat \<Rightarrow> schedule) \<Rightarrow> bool" where
  "schedules_ok n nprocs sched =
     list_all (\<lambda>rank. valid_schedule n (stripe n nprocs * rank) (stripe n nprocs * (rank + 1))
       (sched rank)) [0..<nprocs]"

text \<open>
  Two threads on a 4 by 4 matrix with the static distribution of the \<open>k\<close> range: the first
  thread has \<open>k = 0, 1\<close>, the second \<open>k = 2, 3\<close>. In \<open>omp_schedule\<close> the second thread
  handles row 0 for \<open>k = 2\<close>, then the first thread runs to its end, then the second.
\<close>

definition omp_schedule :: schedule where
  "omp_schedule =
     [(2, 0)] @
     [(0, 0), (0, 1), (0, 2), (0, 3), (1, 0), (1, 1), (1, 2), (1, 3)] @
     [(2, 1), (2, 2), (2, 3), (3, 0), (3, 1), (3, 2), (3, 3)]"

text \<open>
  The same schedule for every rank (only rank 0 matters in a run with one process).
\<close>

definition omp_schedules :: "nat \<Rightarrow> schedule" where
  "omp_schedules rank = omp_schedule"

section \<open>The collectives and their \<^verbatim>\<open>int\<close> count\<close>

text \<open>
  \<^verbatim>\<open>MPI_Bcast\<close> and \<^verbatim>\<open>MPI_Reduce\<close> take the number of elements as an \<^verbatim>\<open>int\<close>. The program
  passes the \<^verbatim>\<open>size_t\<close> value \<^verbatim>\<open>n * n\<close>, which the call converts to \<^verbatim>\<open>int\<close>: the low 32 bits,
  read as two's complement (the 64-bit product itself does not wrap for any \<open>n\<close> whose
  matrices fit in memory). The count is \<open>n * n\<close> as long as \<open>n * n < 2 ^ 31\<close>, that is up to
  \<open>n = 46340\<close>; it is negative for \<open>46341 \<le> n \<le> 65535\<close> and 0 for \<open>n = 65536\<close>.
\<close>

definition mpi_count :: "nat \<Rightarrow> int" where
  "mpi_count n = sint (word_of_nat (n * n) :: 32 word)"

text \<open>
  A collective with count \<open>cnt\<close> writes the first \<open>cnt\<close> cells of the destination buffer,
  in row-major order, and leaves the others as they were. \<open>cnt\<close> is at most \<open>n * n\<close>, so
  the write stays inside the buffer.
\<close>

definition unflat :: "nat \<Rightarrow> cint list \<Rightarrow> matrix" where
  "unflat n xs = map (\<lambda>i. take n (drop (i * n) xs)) [0..<n]"

definition mpi_put :: "nat \<Rightarrow> nat \<Rightarrow> matrix \<Rightarrow> matrix \<Rightarrow> matrix" where
  "mpi_put n cnt src dst = unflat n (take cnt (concat src) @ drop cnt (concat dst))"

text \<open>
  The buffer \<open>tmp\<close> of a rank after \<^verbatim>\<open>MPI_Bcast\<close>. The coordinator has filled its buffer
  from \<open>a\<close>; every other rank has a buffer fresh from \<^verbatim>\<open>malloc\<close>, whose contents \<open>tmp0 rank\<close>
  are a parameter, and receives the first cells of the coordinator's.
\<close>

definition received :: "nat \<Rightarrow> matrix \<Rightarrow> (nat \<Rightarrow> matrix) \<Rightarrow> nat \<Rightarrow> matrix" where
  "received n a tmp0 rank =
     (if rank = 0 then init_copy n a
      else mpi_put n (nat (mpi_count n)) (init_copy n a) (tmp0 rank))"

text \<open>
  The working copy of a rank at \<^verbatim>\<open>MPI_Reduce\<close> when its threads make the passes of
  \<open>sched rank\<close>.
\<close>

definition worker_copy_omp ::
    "nat \<Rightarrow> (nat \<Rightarrow> schedule) \<Rightarrow> matrix \<Rightarrow> (nat \<Rightarrow> matrix) \<Rightarrow> nat \<Rightarrow> matrix" where
  "worker_copy_omp n sched a tmp0 rank = run_schedule n (sched rank) (received n a tmp0 rank)"

text \<open>
  \<^verbatim>\<open>MPI_Reduce\<close> into \<open>c\<close> on the coordinator. \<open>c\<close> comes from \<^verbatim>\<open>malloc\<close> in \<^verbatim>\<open>main\<close> and is not
  initialised; its contents \<open>c0\<close> before the call are a parameter.
\<close>

definition mpi_reduce :: "nat \<Rightarrow> matrix \<Rightarrow> matrix list \<Rightarrow> matrix \<Rightarrow> matrix" where
  "mpi_reduce n root others c0 = mpi_put n (nat (mpi_count n)) (reduce_bor root others) c0"

text \<open>
  A run of \<^verbatim>\<open>warshall(n, a, c)\<close> with \<open>nprocs\<close> processes in which every allocation
  succeeds: the matrix \<open>c\<close> on the coordinator afterwards. A negative count is an error
  of \<^verbatim>\<open>MPI_Bcast\<close>, the first collective: the run ends there, in the error handler of MPI
  or at \<^verbatim>\<open>exit(1)\<close>, and there is no result.
\<close>

definition warshall_run ::
    "nat \<Rightarrow> nat \<Rightarrow> (nat \<Rightarrow> schedule) \<Rightarrow> matrix \<Rightarrow> (nat \<Rightarrow> matrix) \<Rightarrow> matrix \<Rightarrow> matrix option" where
  "warshall_run n nprocs sched a tmp0 c0 =
     (if mpi_count n < 0 then None
      else Some (mpi_reduce n (worker_copy_omp n sched a tmp0 0)
                   (map (worker_copy_omp n sched a tmp0) [1..<nprocs]) c0))"

section \<open>Failures seen by one process\<close>

text \<open>
  What one process does in \<^verbatim>\<open>warshall\<close>, with the failures of its environment as
  parameters: \<open>tmp_null\<close> says that \<^verbatim>\<open>malloc\<close> returned 0 in this process, \<open>bcast_ok\<close> and
  \<open>reduce_ok\<close> that the collective returned \<^verbatim>\<open>MPI_SUCCESS\<close>. The test \<^verbatim>\<open>tmp == 0\<close> stands
  inside \<^verbatim>\<open>if (rank == 0)\<close>; every other rank passes \<^verbatim>\<open>&tmp[0][0]\<close> to \<^verbatim>\<open>MPI_Bcast\<close> as it
  is, together with the count. When \<^verbatim>\<open>MPI_Bcast\<close> reports an error the process prints
  \<^verbatim>\<open>Erreur MPI_Bcast\<close> and exits, whatever \<open>tmp\<close> is. The result in the last branch is the
  one of a run in program order whose count is \<open>n * n\<close>; for any other count the outcome
  is \<open>Count_narrowed\<close>, and \<open>warshall_run\<close> says what \<open>c\<close> holds.
\<close>

datatype diagnostic = Could_not_alloc nat | Erreur_MPI_Bcast | Erreur_MPI_Reduce

datatype outcome =
    Exit_1 diagnostic
  | Null_buffer_used
  | Count_narrowed
  | Returned "matrix option"

definition warshall_proc ::
    "nat \<Rightarrow> nat \<Rightarrow> nat \<Rightarrow> bool \<Rightarrow> bool \<Rightarrow> bool \<Rightarrow> matrix \<Rightarrow> outcome" where
  "warshall_proc n nprocs rank tmp_null bcast_ok reduce_ok a =
     (if rank = 0 \<and> tmp_null then Exit_1 (Could_not_alloc (n * n))
      else if \<not> bcast_ok then Exit_1 Erreur_MPI_Bcast
      else if tmp_null \<and> 0 < n * n then Null_buffer_used
      else if \<not> reduce_ok then Exit_1 Erreur_MPI_Reduce
      else if mpi_count n \<noteq> int (n * n) then Count_narrowed
      else Returned (if rank = 0 then Some (warshall n nprocs a) else None))"

section \<open>Graphs, paths and example matrices\<close>

text \<open>The edge relation of a matrix: a cell counts as an edge when it is true in C.\<close>

definition edges :: "nat \<Rightarrow> matrix \<Rightarrow> (nat \<times> nat) set" where
  "edges n m = {(i, j). i < n \<and> j < n \<and> m ! i ! j \<noteq> 0}"

text \<open>\<open>path E i xs j\<close>: the edges of \<open>E\<close> lead from \<open>i\<close> through the nodes \<open>xs\<close> to \<open>j\<close>.\<close>

fun path :: "(nat \<times> nat) set \<Rightarrow> nat \<Rightarrow> nat list \<Rightarrow> nat \<Rightarrow> bool" where
  "path E i [] j = ((i, j) \<in> E)"
| "path E i (x # xs) j = ((i, x) \<in> E \<and> path E x xs j)"

text \<open>The chain \<open>0 \<rightarrow> 1 \<rightarrow> 2 \<rightarrow> 3\<close>, and the chain \<open>0 \<rightarrow> 2 \<rightarrow> 1 \<rightarrow> 3\<close>.\<close>

definition chain4 :: matrix where
  "chain4 = [[0, 1, 0, 0], [0, 0, 1, 0], [0, 0, 0, 1], [0, 0, 0, 0]]"

definition zigzag4 :: matrix where
  "zigzag4 = [[0, 0, 1, 0], [0, 0, 0, 1], [0, 1, 0, 0], [0, 0, 0, 0]]"

text \<open>A 3 by 3 matrix for two workers: the stripe is 1, row 2 has no owner.\<close>

definition tail3 :: matrix where
  "tail3 = [[0, 1, 0], [0, 0, 1], [1, 0, 0]]"

text \<open>
  The matrices of all 0 and of all 1, and buffers of all 0 for every rank.
\<close>

definition zeros :: "nat \<Rightarrow> matrix" where
  "zeros n = replicate n (replicate n 0)"

definition ones :: "nat \<Rightarrow> matrix" where
  "ones n = replicate n (replicate n 1)"

definition zero_bufs :: "nat \<Rightarrow> nat \<Rightarrow> matrix" where
  "zero_bufs n rank = zeros n"


section \<open>The loops in closed form\<close>

text \<open>
  The row that one pass of the \<open>j\<close> loop leaves in place of row \<open>i\<close>, the matrix after one
  iteration of the \<open>k\<close> loop, and the matrix after the first \<open>m\<close> iterations.
\<close>

definition relaxed_row :: "nat \<Rightarrow> nat \<Rightarrow> nat \<Rightarrow> matrix \<Rightarrow> cint list" where
  "relaxed_row n k i tmp =
     map (\<lambda>j. c_lor (tmp ! i ! j) (c_land (tmp ! i ! k) (tmp ! k ! j))) [0..<n]"

definition kstep :: "nat \<Rightarrow> nat \<Rightarrow> nat \<Rightarrow> nat \<Rightarrow> matrix \<Rightarrow> matrix" where
  "kstep n lo hi k tmp =
     map (\<lambda>i. if lo \<le> i \<and> i < hi then relaxed_row n k i tmp else tmp ! i) [0..<n]"

definition ksteps :: "nat \<Rightarrow> nat \<Rightarrow> nat \<Rightarrow> nat \<Rightarrow> matrix \<Rightarrow> matrix" where
  "ksteps n lo hi m tmp = foldl (\<lambda>t k. kstep n lo hi k t) tmp [0..<m]"

section \<open>Loops as folds\<close>

lemma for_loop_foldl: "for_loop x hi body s = foldl (\<lambda>s i. body i s) s [x..<hi]"
proof (induction x hi body s rule: for_loop.induct)
  case (1 x hi body s)
  show ?case
  proof (cases "x < hi")
    case True
    then show ?thesis using 1 by (subst for_loop.simps) (simp add: upt_rec [of x hi])
  next
    case False
    then show ?thesis by (subst for_loop.simps) simp
  qed
qed

lemma wf_matrix_nth: "wf_matrix n m \<Longrightarrow> i < n \<Longrightarrow> length (m ! i) = n"
  by (simp add: wf_matrix_def list_all_length)

lemma wf_matrix_length: "wf_matrix n m \<Longrightarrow> length m = n"
  by (simp add: wf_matrix_def)

lemma wf_matrixI: "length m = n \<Longrightarrow> (\<And>i. i < n \<Longrightarrow> length (m ! i) = n) \<Longrightarrow> wf_matrix n m"
  by (simp add: wf_matrix_def list_all_length)

lemma c_land_absorb_left [simp]: "c_land (c_lor x (c_land x z)) y = c_land x y"
  by (simp add: c_land_def c_lor_def)

lemma c_land_absorb_right [simp]: "c_land x (c_lor y (c_land z y)) = c_land x y"
  by (simp add: c_land_def c_lor_def)

lemma loop_j_partial:
  assumes wf: "wf_matrix n tmp" and i: "i < n" and k: "k < n"
  shows "m \<le> n \<Longrightarrow> foldl (\<lambda>t j. relax k i j t) tmp [0..<m] =
    tmp[i := map (\<lambda>j. if j < m then relaxed_row n k i tmp ! j else tmp ! i ! j) [0..<n]]"
proof (induction m)
  case 0
  have "map (\<lambda>j. tmp ! i ! j) [0..<n] = tmp ! i"
    using wf_matrix_nth [OF wf i] by (metis map_nth)
  then show ?case by simp
next
  case (Suc m)
  let ?f = "\<lambda>j. c_lor (tmp ! i ! j) (c_land (tmp ! i ! k) (tmp ! k ! j))"
  let ?r = "map (\<lambda>j. if j < m then relaxed_row n k i tmp ! j else tmp ! i ! j) [0..<n]"
  have m: "m < n" using Suc.prems by simp
  have len: "i < length tmp" using wf i by (simp add: wf_matrix_length)
  have rk: "c_land (?r ! k) y = c_land (tmp ! i ! k) y" for y
    using k by (simp add: relaxed_row_def)
  have km: "tmp[i := ?r] ! k ! m = tmp ! k ! m"
    using m len by (cases "k = i") simp_all
  have "foldl (\<lambda>t j. relax k i j t) tmp [0..<Suc m] = relax k i m (tmp[i := ?r])"
    using Suc by simp
  also have "\<dots> = tmp[i := ?r[m := ?f m]]"
    using m len by (simp add: relax_def rk km del: upt_Suc)
  also have "?r[m := ?f m] =
      map (\<lambda>j. if j < Suc m then relaxed_row n k i tmp ! j else tmp ! i ! j) [0..<n]"
    using m by (intro nth_equalityI) (auto simp: nth_list_update relaxed_row_def less_Suc_eq)
  finally show ?case .
qed

lemma loop_j_eq:
  assumes "wf_matrix n tmp" "i < n" "k < n"
  shows "loop_j n k i tmp = tmp[i := relaxed_row n k i tmp]"
proof -
  have "map (\<lambda>j. if j < n then relaxed_row n k i tmp ! j else tmp ! i ! j) [0..<n]
      = relaxed_row n k i tmp"
    by (intro nth_equalityI) (simp_all add: relaxed_row_def)
  then show ?thesis
    using loop_j_partial [OF assms, of n] by (simp add: loop_j_def for_loop_foldl)
qed

lemma length_relaxed_row [simp]: "length (relaxed_row n k i tmp) = n"
  by (simp add: relaxed_row_def)

lemma wf_kstep: "wf_matrix n tmp \<Longrightarrow> wf_matrix n (kstep n lo hi k tmp)"
  by (rule wf_matrixI) (simp_all add: kstep_def wf_matrix_nth)

lemma kstep_empty: "wf_matrix n tmp \<Longrightarrow> hi \<le> lo \<Longrightarrow> kstep n lo hi k tmp = tmp"
  by (rule nth_equalityI) (auto simp: kstep_def wf_matrix_length)

lemma relaxed_row_kstep:
  assumes "m < n" "k < n"
  shows "relaxed_row n k m (kstep n lo m k tmp) = relaxed_row n k m tmp"
  using assms by (intro nth_equalityI) (simp_all add: relaxed_row_def kstep_def)

lemma loop_i_partial:
  assumes wf: "wf_matrix n tmp" and k: "k < n"
  shows "m \<le> n \<Longrightarrow> foldl (\<lambda>t i. loop_j n k i t) tmp [lo..<m] = kstep n lo m k tmp"
proof (induction m)
  case 0
  then show ?case using wf by (simp add: kstep_empty)
next
  case (Suc m)
  show ?case
  proof (cases "lo \<le> m")
    case True
    have m: "m < n" using Suc.prems by simp
    have "foldl (\<lambda>t i. loop_j n k i t) tmp [lo..<Suc m] = loop_j n k m (kstep n lo m k tmp)"
      using Suc True by simp
    also have "\<dots> = (kstep n lo m k tmp)[m := relaxed_row n k m tmp]"
      using m k by (simp add: loop_j_eq wf_kstep [OF wf] relaxed_row_kstep)
    also have "\<dots> = kstep n lo (Suc m) k tmp"
      using m True by (intro nth_equalityI) (auto simp: kstep_def nth_list_update less_Suc_eq)
    finally show ?thesis .
  next
    case False
    then show ?thesis using wf by (simp add: kstep_empty)
  qed
qed

lemma loop_i_eq:
  "wf_matrix n tmp \<Longrightarrow> k < n \<Longrightarrow> hi \<le> n \<Longrightarrow> loop_i n lo hi k tmp = kstep n lo hi k tmp"
  by (simp add: loop_i_def for_loop_foldl loop_i_partial)

lemma ksteps_0 [simp]: "ksteps n lo hi 0 tmp = tmp"
  by (simp add: ksteps_def)

lemma ksteps_Suc [simp]: "ksteps n lo hi (Suc m) tmp = kstep n lo hi m (ksteps n lo hi m tmp)"
  by (simp add: ksteps_def)

lemma wf_ksteps: "wf_matrix n tmp \<Longrightarrow> wf_matrix n (ksteps n lo hi m tmp)"
  by (induction m) (simp_all add: wf_kstep)

lemma sweep_partial:
  assumes "wf_matrix n tmp" "hi \<le> n"
  shows "m \<le> n \<Longrightarrow> foldl (\<lambda>t k. loop_i n lo hi k t) tmp [0..<m] = ksteps n lo hi m tmp"
  using assms by (induction m) (simp_all add: loop_i_eq wf_ksteps)

lemma sweep_eq: "wf_matrix n tmp \<Longrightarrow> hi \<le> n \<Longrightarrow> sweep n lo hi tmp = ksteps n lo hi n tmp"
  by (simp add: sweep_def for_loop_foldl sweep_partial)

lemma init_copy_eq: "wf_matrix n a \<Longrightarrow> init_copy n a = a"
  by (rule nth_equalityI) (auto simp: init_copy_def wf_matrix_length wf_matrix_nth intro: nth_equalityI)

lemma stripe_bound: "rank < nprocs \<Longrightarrow> stripe n nprocs * (rank + 1) \<le> n"
proof -
  assume "rank < nprocs"
  then have "rank + 1 \<le> nprocs" by simp
  then have "(n div nprocs) * (rank + 1) \<le> (n div nprocs) * nprocs" by (rule mult_le_mono2)
  also have "\<dots> \<le> n" by simp
  finally show ?thesis by (simp add: stripe_def)
qed

lemma worker_copy_eq:
  "wf_matrix n a \<Longrightarrow> rank < nprocs \<Longrightarrow>
   worker_copy n nprocs rank a =
     ksteps n (stripe n nprocs * rank) (stripe n nprocs * (rank + 1)) n a"
  unfolding worker_copy_def by (simp only: init_copy_eq sweep_eq stripe_bound)

section \<open>Invariants of the relaxation\<close>

lemma kstep_cell:
  "i < n \<Longrightarrow> j < n \<Longrightarrow>
   kstep n lo hi k t ! i ! j =
     (if lo \<le> i \<and> i < hi then c_lor (t ! i ! j) (c_land (t ! i ! k) (t ! k ! j)) else t ! i ! j)"
  by (simp add: kstep_def relaxed_row_def)

lemma kstep_frame: "i < n \<Longrightarrow> \<not> (lo \<le> i \<and> i < hi) \<Longrightarrow> kstep n lo hi k t ! i = t ! i"
  by (auto simp: kstep_def)

lemma ksteps_frame: "i < n \<Longrightarrow> \<not> (lo \<le> i \<and> i < hi) \<Longrightarrow> ksteps n lo hi m t ! i = t ! i"
  by (induction m) (simp_all add: kstep_frame)

lemma kstep_mono: "i < n \<Longrightarrow> j < n \<Longrightarrow> t ! i ! j \<noteq> 0 \<Longrightarrow> kstep n lo hi k t ! i ! j \<noteq> 0"
  by (simp add: kstep_cell c_lor_def)

lemma ksteps_mono: "i < n \<Longrightarrow> j < n \<Longrightarrow> t ! i ! j \<noteq> 0 \<Longrightarrow> ksteps n lo hi m t ! i ! j \<noteq> 0"
  by (induction m) (simp_all add: kstep_mono)

lemma kstep_nonzero:
  "i < n \<Longrightarrow> j < n \<Longrightarrow> kstep n lo hi k t ! i ! j \<noteq> 0 \<Longrightarrow>
   t ! i ! j \<noteq> 0 \<or> (t ! i ! k \<noteq> 0 \<and> t ! k ! j \<noteq> 0)"
  by (auto simp: kstep_cell c_lor_def c_land_def split: if_splits)

lemma ksteps_sound:
  "m \<le> n \<Longrightarrow> i < n \<Longrightarrow> j < n \<Longrightarrow> ksteps n lo hi m t ! i ! j \<noteq> 0 \<Longrightarrow> (i, j) \<in> (edges n t)\<^sup>+"
proof (induction m arbitrary: i j)
  case 0
  then show ?case by (auto simp: edges_def)
next
  case (Suc m)
  let ?t = "ksteps n lo hi m t"
  have m: "m < n" "m \<le> n" using Suc.prems by simp_all
  from Suc.prems have "kstep n lo hi m ?t ! i ! j \<noteq> 0" by simp
  with Suc.prems have "?t ! i ! j \<noteq> 0 \<or> (?t ! i ! m \<noteq> 0 \<and> ?t ! m ! j \<noteq> 0)"
    by (intro kstep_nonzero)
  then show ?case
  proof
    assume "?t ! i ! j \<noteq> 0"
    then show ?thesis using Suc.IH m Suc.prems by simp
  next
    assume "?t ! i ! m \<noteq> 0 \<and> ?t ! m ! j \<noteq> 0"
    then have "(i, m) \<in> (edges n t)\<^sup>+" "(m, j) \<in> (edges n t)\<^sup>+"
      using Suc.IH m Suc.prems by simp_all
    then show ?thesis by (rule trancl_trans)
  qed
qed

lemma bin_matrix_cell: "bin_matrix m \<Longrightarrow> i < length m \<Longrightarrow> j < length (m ! i) \<Longrightarrow> m ! i ! j = 0 \<or> m ! i ! j = 1"
  by (simp add: bin_matrix_def list_all_length)

lemma bin_matrixI:
  "(\<And>i j. i < length m \<Longrightarrow> j < length (m ! i) \<Longrightarrow> m ! i ! j = 0 \<or> m ! i ! j = 1) \<Longrightarrow> bin_matrix m"
  by (simp add: bin_matrix_def list_all_length)

lemma c_lor_bin: "c_lor x y = 0 \<or> c_lor x y = 1"
  by (simp add: c_lor_def)



subsection \<open>The reduction\<close>

lemma wf_mat_bor: "wf_matrix n x \<Longrightarrow> wf_matrix n y \<Longrightarrow> wf_matrix n (mat_bor x y)"
  by (rule wf_matrixI) (simp_all add: mat_bor_def wf_matrix_length wf_matrix_nth)

lemma mat_bor_cell:
  "wf_matrix n x \<Longrightarrow> wf_matrix n y \<Longrightarrow> i < n \<Longrightarrow> j < n \<Longrightarrow>
   mat_bor x y ! i ! j = x ! i ! j OR y ! i ! j"
  by (simp add: mat_bor_def wf_matrix_length wf_matrix_nth)

lemma wf_reduce_bor:
  "wf_matrix n x \<Longrightarrow> list_all (wf_matrix n) ys \<Longrightarrow> wf_matrix n (reduce_bor x ys)"
  unfolding reduce_bor_def by (induction ys arbitrary: x) (simp_all add: wf_mat_bor)

lemma reduce_bor_cell:
  "wf_matrix n x \<Longrightarrow> list_all (wf_matrix n) ys \<Longrightarrow> i < n \<Longrightarrow> j < n \<Longrightarrow>
   reduce_bor x ys ! i ! j = foldl (OR) (x ! i ! j) (map (\<lambda>y. y ! i ! j) ys)"
  unfolding reduce_bor_def
  by (induction ys arbitrary: x) (simp_all add: wf_mat_bor mat_bor_cell)

lemma foldl_or_nonzero:
  "foldl (OR) (x::cint) ys \<noteq> 0 \<longleftrightarrow> x \<noteq> 0 \<or> (\<exists>y \<in> set ys. y \<noteq> 0)"
  by (induction ys arbitrary: x) (auto simp: or_eq_0_iff)


lemma foldl_or_bin:
  "(x::cint) = 0 \<or> x = 1 \<Longrightarrow> \<forall>y \<in> set ys. y = 0 \<or> y = 1 \<Longrightarrow>
   foldl (OR) x ys = 0 \<or> foldl (OR) x ys = 1"
proof (induction ys arbitrary: x)
  case Nil
  then show ?case by simp
next
  case (Cons y ys)
  have "x OR y = 0 \<or> x OR y = 1" using Cons.prems by auto
  then show ?case using Cons by simp
qed

section \<open>The full sweep computes the transitive closure\<close>

lemma path_append: "path E i (xs @ y # ys) j \<longleftrightarrow> path E i xs y \<and> path E y ys j"
  by (induction xs arbitrary: i) simp_all

lemma path_trancl: "path E i xs j \<Longrightarrow> (i, j) \<in> E\<^sup>+"
  by (induction xs arbitrary: i) (auto intro: trancl_into_trancl2)

lemma trancl_path: "(i, j) \<in> E\<^sup>+ \<Longrightarrow> \<exists>xs. path E i xs j"
proof (induction rule: converse_trancl_induct)
  case (base y)
  then have "path E y [] j" by simp
  then show ?case ..
next
  case (step y z)
  then obtain xs where "path E z xs j" by blast
  with step.hyps(1) have "path E y (z # xs) j" by simp
  then show ?case ..
qed

lemma path_inner_bound: "path (edges n t) i xs j \<Longrightarrow> x \<in> set xs \<Longrightarrow> x < n"
  by (induction xs arbitrary: i) (auto simp: edges_def)

text \<open>A path through \<open>m\<close> splits into a part before the first and a part after the last visit.\<close>

lemma path_split_at:
  assumes p: "path E i xs j" and m: "m \<in> set xs" and b: "\<forall>x \<in> set xs. x < Suc m"
  shows "\<exists>ys zs. path E i ys m \<and> path E m zs j \<and> (\<forall>x \<in> set ys. x < m) \<and> (\<forall>x \<in> set zs. x < m)"
proof -
  from m obtain ys us where xs: "xs = ys @ m # us" and ys: "m \<notin> set ys"
    by (auto dest: split_list_first)
  from p xs have p1: "path E i ys m" and p2: "path E m us j"
    by (simp_all add: path_append)
  have bys: "\<forall>x \<in> set ys. x < m" using b ys xs by (auto simp: less_Suc_eq)
  have "\<exists>zs. path E m zs j \<and> (\<forall>x \<in> set zs. x < m)"
  proof (cases "m \<in> set us")
    case False
    then have "\<forall>x \<in> set us. x < m" using b xs by (auto simp: less_Suc_eq)
    with p2 show ?thesis by blast
  next
    case True
    then obtain vs zs where us: "us = vs @ m # zs" and zs: "m \<notin> set zs"
      by (auto dest: split_list_last)
    from p2 us have "path E m zs j" by (simp add: path_append)
    moreover have "\<forall>x \<in> set zs. x < m" using b zs xs us by (auto simp: less_Suc_eq)
    ultimately show ?thesis by blast
  qed
  with p1 bys show ?thesis by blast
qed

lemma ksteps_full_paths:
  "m \<le> n \<Longrightarrow> i < n \<Longrightarrow> j < n \<Longrightarrow>
   ksteps n 0 n m t ! i ! j \<noteq> 0 \<longleftrightarrow>
     (\<exists>xs. path (edges n t) i xs j \<and> (\<forall>x \<in> set xs. x < m))"
proof (induction m arbitrary: i j)
  case 0
  then show ?case by (auto simp: edges_def)
next
  case (Suc m)
  let ?t = "ksteps n 0 n m t" and ?E = "edges n t"
  have m: "m < n" "m \<le> n" using Suc.prems by simp_all
  have step: "ksteps n 0 n (Suc m) t ! i ! j \<noteq> 0 \<longleftrightarrow>
      ?t ! i ! j \<noteq> 0 \<or> (?t ! i ! m \<noteq> 0 \<and> ?t ! m ! j \<noteq> 0)"
    using Suc.prems by (simp add: kstep_cell c_lor_def c_land_def)
  have ij: "?t ! i ! j \<noteq> 0 \<longleftrightarrow> (\<exists>xs. path ?E i xs j \<and> (\<forall>x \<in> set xs. x < m))"
    and im: "?t ! i ! m \<noteq> 0 \<longleftrightarrow> (\<exists>xs. path ?E i xs m \<and> (\<forall>x \<in> set xs. x < m))"
    and mj: "?t ! m ! j \<noteq> 0 \<longleftrightarrow> (\<exists>xs. path ?E m xs j \<and> (\<forall>x \<in> set xs. x < m))"
    using Suc.IH m Suc.prems by simp_all
  show ?case
  proof
    assume "ksteps n 0 n (Suc m) t ! i ! j \<noteq> 0"
    with step consider "?t ! i ! j \<noteq> 0" | "?t ! i ! m \<noteq> 0" "?t ! m ! j \<noteq> 0" by blast
    then show "\<exists>xs. path ?E i xs j \<and> (\<forall>x \<in> set xs. x < Suc m)"
    proof cases
      case 1
      then obtain xs where "path ?E i xs j" "\<forall>x \<in> set xs. x < m" using ij by blast
      then have "path ?E i xs j \<and> (\<forall>x \<in> set xs. x < Suc m)" by (simp add: less_Suc_eq)
      then show ?thesis ..
    next
      case 2
      then obtain ys zs where "path ?E i ys m" "\<forall>x \<in> set ys. x < m"
        "path ?E m zs j" "\<forall>x \<in> set zs. x < m" using im mj by blast
      then have "path ?E i (ys @ m # zs) j \<and> (\<forall>x \<in> set (ys @ m # zs). x < Suc m)"
        by (auto simp: path_append less_Suc_eq)
      then show ?thesis ..
    qed
  next
    assume "\<exists>xs. path ?E i xs j \<and> (\<forall>x \<in> set xs. x < Suc m)"
    then obtain xs where p: "path ?E i xs j" and b: "\<forall>x \<in> set xs. x < Suc m" by blast
    show "ksteps n 0 n (Suc m) t ! i ! j \<noteq> 0"
    proof (cases "m \<in> set xs")
      case False
      then have "\<forall>x \<in> set xs. x < m" using b by (auto simp: less_Suc_eq)
      with p ij step show ?thesis by blast
    next
      case True
      from path_split_at [OF p True b] im mj step show ?thesis by blast
    qed
  qed
qed

lemma ksteps_full_trancl:
  assumes "i < n" "j < n"
  shows "ksteps n 0 n n t ! i ! j \<noteq> 0 \<longleftrightarrow> (i, j) \<in> (edges n t)\<^sup>+"
proof
  assume "ksteps n 0 n n t ! i ! j \<noteq> 0"
  then obtain xs where "path (edges n t) i xs j"
    using assms ksteps_full_paths [of n n i j t] by auto
  then show "(i, j) \<in> (edges n t)\<^sup>+" by (rule path_trancl)
next
  assume "(i, j) \<in> (edges n t)\<^sup>+"
  then obtain xs where p: "path (edges n t) i xs j" by (auto dest: trancl_path)
  then have "\<forall>x \<in> set xs. x < n" by (auto dest: path_inner_bound)
  with p have "\<exists>xs. path (edges n t) i xs j \<and> (\<forall>x \<in> set xs. x < n)" by blast
  then show "ksteps n 0 n n t ! i ! j \<noteq> 0"
    using assms ksteps_full_paths [of n n i j t] by simp
qed

lemma ksteps_full_bin:
  assumes "i < n" "j < n"
  shows "ksteps n 0 n n t ! i ! j = 0 \<or> ksteps n 0 n n t ! i ! j = 1"
proof -
  from assms obtain m where n: "n = Suc m" by (cases n) auto
  have "kstep n 0 n m (ksteps n 0 n m t) ! i ! j =
      c_lor (ksteps n 0 n m t ! i ! j)
        (c_land (ksteps n 0 n m t ! i ! m) (ksteps n 0 n m t ! m ! j))"
    using assms by (simp add: kstep_cell)
  then have "ksteps n 0 n (Suc m) t ! i ! j = 0 \<or> ksteps n 0 n (Suc m) t ! i ! j = 1"
    using c_lor_bin by simp
  then show ?thesis unfolding n .
qed

lemma ksteps_full_cell:
  assumes "i < n" "j < n"
  shows "ksteps n 0 n n t ! i ! j = (if (i, j) \<in> (edges n t)\<^sup>+ then 1 else 0)"
proof (cases "(i, j) \<in> (edges n t)\<^sup>+")
  case True
  then have "ksteps n 0 n n t ! i ! j \<noteq> 0" using ksteps_full_trancl [OF assms, of t] by simp
  then show ?thesis using True ksteps_full_bin [OF assms, of t] by simp
next
  case False
  then have "ksteps n 0 n n t ! i ! j = 0" using ksteps_full_trancl [OF assms, of t] by simp
  then show ?thesis using False by simp
qed

lemma warshall_single: "warshall n (Suc 0) a = worker_copy n (Suc 0) 0 a"
  unfolding warshall_def reduce_bor_def by simp

lemma warshall_single_ksteps:
  assumes wf: "wf_matrix n a"
  shows "warshall n (Suc 0) a = ksteps n 0 n n a"
proof -
  have "worker_copy n (Suc 0) 0 a = ksteps n (stripe n (Suc 0) * 0) (stripe n (Suc 0) * (0 + 1)) n a"
    using wf by (rule worker_copy_eq) simp
  also have "stripe n (Suc 0) * 0 = 0" by simp
  also have "stripe n (Suc 0) * (0 + 1) = n" by (simp add: stripe_def)
  finally show ?thesis using warshall_single by simp
qed

section \<open>Worker copies and the coordinator's result\<close>

lemma wf_worker_copy:
  "wf_matrix n a \<Longrightarrow> rank < nprocs \<Longrightarrow> wf_matrix n (worker_copy n nprocs rank a)"
  by (simp add: worker_copy_eq wf_ksteps)



lemma wf_warshall:
  assumes "wf_matrix n a" "0 < nprocs"
  shows "wf_matrix n (warshall n nprocs a)"
  unfolding warshall_def
  using assms by (intro wf_reduce_bor) (simp_all add: wf_worker_copy list_all_iff)

lemma warshall_cell:
  assumes "wf_matrix n a" "0 < nprocs" "i < n" "j < n"
  shows "warshall n nprocs a ! i ! j =
    foldl (OR) (worker_copy n nprocs 0 a ! i ! j)
      (map (\<lambda>rank. worker_copy n nprocs rank a ! i ! j) [1..<nprocs])"
proof -
  have "list_all (wf_matrix n) (map (\<lambda>rank. worker_copy n nprocs rank a) [1..<nprocs])"
    using assms by (simp add: wf_worker_copy list_all_iff)
  then have "reduce_bor (worker_copy n nprocs 0 a)
        (map (\<lambda>rank. worker_copy n nprocs rank a) [1..<nprocs]) ! i ! j =
      foldl (OR) (worker_copy n nprocs 0 a ! i ! j)
        (map (\<lambda>y. y ! i ! j) (map (\<lambda>rank. worker_copy n nprocs rank a) [1..<nprocs]))"
    using assms by (intro reduce_bor_cell) (simp_all add: wf_worker_copy)
  then show ?thesis by (simp add: warshall_def o_def)
qed

lemma ranks_split: "0 < nprocs \<Longrightarrow> (\<exists>r<nprocs. P r) \<longleftrightarrow> P 0 \<or> (\<exists>r \<in> set [1..<nprocs]. P r)"
proof -
  assume "0 < nprocs"
  then have "{..<nprocs} = insert 0 (set [1..<nprocs])" by auto
  then show ?thesis by (metis insert_iff lessThan_iff)
qed

lemma warshall_cell_nonzero:
  assumes "wf_matrix n a" "0 < nprocs" "i < n" "j < n"
  shows "warshall n nprocs a ! i ! j \<noteq> 0 \<longleftrightarrow>
    (\<exists>rank<nprocs. worker_copy n nprocs rank a ! i ! j \<noteq> 0)"
  unfolding warshall_cell [OF assms] foldl_or_nonzero
  using ranks_split [OF assms(2), of "\<lambda>r. worker_copy n nprocs r a ! i ! j \<noteq> 0"]
  by auto


lemma worker_copy_sound:
  assumes "wf_matrix n a" "rank < nprocs" "i < n" "j < n"
    and "worker_copy n nprocs rank a ! i ! j \<noteq> 0"
  shows "(i, j) \<in> (edges n a)\<^sup>+"
  using assms ksteps_sound [of n n i j] by (simp add: worker_copy_eq)

lemma worker_copy_mono:
  assumes "wf_matrix n a" "rank < nprocs" "i < n" "j < n" "a ! i ! j \<noteq> 0"
  shows "worker_copy n nprocs rank a ! i ! j \<noteq> 0"
  using assms by (simp add: worker_copy_eq ksteps_mono)

lemma worker_copy_frame:
  assumes "wf_matrix n a" "rank < nprocs" "i < n"
    and "\<not> (stripe n nprocs * rank \<le> i \<and> i < stripe n nprocs * (rank + 1))"
  shows "worker_copy n nprocs rank a ! i = a ! i"
  using assms by (simp add: worker_copy_eq ksteps_frame)

section \<open>Example runs\<close>

lemma wf_chain4: "wf_matrix 4 chain4"
  by (simp add: wf_matrix_def chain4_def)
lemma bin_chain4: "bin_matrix chain4"
  by (simp add: bin_matrix_def chain4_def)
lemma wf_zigzag4: "wf_matrix 4 zigzag4"
  by (simp add: wf_matrix_def zigzag4_def)
lemma bin_zigzag4: "bin_matrix zigzag4"
  by (simp add: bin_matrix_def zigzag4_def)
lemma wf_tail3: "wf_matrix 3 tail3"
  by (simp add: wf_matrix_def tail3_def)

lemma warshall_1_chain4: "warshall 4 (Suc 0) chain4 = [[0, 1, 1, 1], [0, 0, 1, 1], [0, 0, 0, 1], [0, 0, 0, 0]]"
  by code_simp

lemma warshall_2_zigzag4: "warshall 4 2 zigzag4 = [[0, 1, 1, 0], [0, 0, 0, 1], [0, 1, 0, 1], [0, 0, 0, 0]]"
  by code_simp

section \<open>Further facts on the program-order run\<close>

lemma bin_cell_nonzero: "x = 0 \<or> x = 1 \<Longrightarrow> (x::cint) \<noteq> 0 \<longleftrightarrow> x = 1"
  by auto

text \<open>On a matrix with cells in \<open>{0, 1}\<close> the edges are the cells equal to 1.\<close>

lemma edges_bin:
  assumes "wf_matrix n a" and "bin_matrix a"
  shows "edges n a = {(i, j). i < n \<and> j < n \<and> a ! i ! j = 1}"
proof -
  have "a ! i ! j \<noteq> 0 \<longleftrightarrow> a ! i ! j = 1" if "i < n" "j < n" for i j
  proof (rule bin_cell_nonzero)
    show "a ! i ! j = 0 \<or> a ! i ! j = 1"
      using bin_matrix_cell [OF assms(2), of i j] assms(1) that
      by (simp add: wf_matrix_length wf_matrix_nth)
  qed
  then show ?thesis by (auto simp: edges_def)
qed

lemma zigzag4_reach: "(0, 3) \<in> (edges 4 zigzag4)\<^sup>+"
proof -
  have "path (edges 4 zigzag4) 0 [2, 1] 3" by (simp add: edges_def zigzag4_def)
  then show ?thesis by (rule path_trancl)
qed



lemma map2_or_same: "map2 (OR) r r = (r :: cint list)"
  by (induction r) simp_all

lemma mat_bor_row:
  "wf_matrix n x \<Longrightarrow> wf_matrix n y \<Longrightarrow> i < n \<Longrightarrow> mat_bor x y ! i = map2 (OR) (x ! i) (y ! i)"
  by (simp add: mat_bor_def wf_matrix_length)

lemma reduce_bor_row_same:
  "wf_matrix n x \<Longrightarrow> list_all (wf_matrix n) ys \<Longrightarrow> i < n \<Longrightarrow>
   x ! i = r \<Longrightarrow> list_all (\<lambda>y. y ! i = r) ys \<Longrightarrow> reduce_bor x ys ! i = r"
  unfolding reduce_bor_def
  by (induction ys arbitrary: x) (simp_all add: wf_mat_bor mat_bor_row map2_or_same)

lemma edges_trancl_bound:
  assumes "(i, j) \<in> (edges n a)\<^sup>+"
  shows "i < n \<and> j < n"
proof -
  from assms have "i \<in> Domain (edges n a)" "j \<in> Range (edges n a)"
    by (auto dest: tranclD tranclD2)
  then show ?thesis by (auto simp: edges_def)
qed

lemma edges_closure: "edges n (ksteps n 0 n n a) = (edges n a)\<^sup>+"
proof (rule set_eqI)
  fix p :: "nat \<times> nat"
  obtain i j where p: "p = (i, j)" by (cases p)
  show "p \<in> edges n (ksteps n 0 n n a) \<longleftrightarrow> p \<in> (edges n a)\<^sup>+"
  proof
    assume "p \<in> edges n (ksteps n 0 n n a)"
    then have "i < n" "j < n" "ksteps n 0 n n a ! i ! j \<noteq> 0"
      by (simp_all add: p edges_def)
    then show "p \<in> (edges n a)\<^sup>+" using ksteps_full_trancl [of i n j a] by (simp add: p)
  next
    assume t: "p \<in> (edges n a)\<^sup>+"
    then have b: "i < n" "j < n" using edges_trancl_bound [of i j n a] by (simp_all add: p)
    then have "ksteps n 0 n n a ! i ! j \<noteq> 0"
      using ksteps_full_trancl [of i n j a] t by (simp add: p)
    then show "p \<in> edges n (ksteps n 0 n n a)" using b by (simp add: p edges_def)
  qed
qed



text \<open>
  With a single worker, the program-order result is the transitive closure, and the
  closure of the closure is the closure.
\<close>

lemma warshall_single_closure:
  assumes "wf_matrix n a" and "bin_matrix a" and "i < n" and "j < n"
  shows "warshall n 1 a ! i ! j = (if a ! i ! j = 1 \<or> (i, j) \<in> (edges n a)\<^sup>+ then 1 else 0)"
proof -
  have "a ! i ! j = 1 \<Longrightarrow> (i, j) \<in> (edges n a)\<^sup>+"
    using assms(3,4) by (auto simp: edges_def)
  then show ?thesis
    using assms by (auto simp: warshall_single_ksteps ksteps_full_cell)
qed

lemma warshall_single_idempotent:
  assumes "wf_matrix n a"
  shows "warshall n 1 (warshall n 1 a) = warshall n 1 a"
proof -
  let ?c = "ksteps n 0 n n a"
  have wfc: "wf_matrix n ?c" using assms by (rule wf_ksteps)
  have wfcc: "wf_matrix n (ksteps n 0 n n ?c)" using wfc by (rule wf_ksteps)
  have cell: "ksteps n 0 n n ?c ! i ! j = ?c ! i ! j" if "i < n" "j < n" for i j
    using that by (simp add: ksteps_full_cell edges_closure)
  have "ksteps n 0 n n ?c = ?c"
  proof (rule nth_equalityI)
    show "length (ksteps n 0 n n ?c) = length ?c"
      using wfc wfcc by (simp add: wf_matrix_length)
  next
    fix i assume "i < length (ksteps n 0 n n ?c)"
    then have i: "i < n" using wfcc by (simp add: wf_matrix_length)
    show "ksteps n 0 n n ?c ! i = ?c ! i"
    proof (rule nth_equalityI)
      show "length (ksteps n 0 n n ?c ! i) = length (?c ! i)"
        using wfc wfcc i by (simp add: wf_matrix_nth)
    next
      fix j assume "j < length (ksteps n 0 n n ?c ! i)"
      then have "j < n" using wfcc i by (simp add: wf_matrix_nth)
      with i show "ksteps n 0 n n ?c ! i ! j = ?c ! i ! j" by (rule cell)
    qed
  qed
  then show ?thesis using assms wfc by (simp add: warshall_single_ksteps)
qed

section \<open>Schedules\<close>

lemma run_schedule_append:
  "run_schedule n (s1 @ s2) tmp = run_schedule n s2 (run_schedule n s1 tmp)"
  by (simp add: run_schedule_def)

lemma run_schedule_row: "run_schedule n (map (\<lambda>i. (k, i)) is) tmp = foldl (\<lambda>t i. loop_j n k i t) tmp is"
  by (induction "is" arbitrary: tmp) (simp_all add: run_schedule_def)

lemma run_schedule_concat:
  "run_schedule n (concat (map f ks)) tmp = foldl (\<lambda>t k. run_schedule n (f k) t) tmp ks"
  by (induction ks arbitrary: tmp) (simp_all add: run_schedule_append, simp add: run_schedule_def)

lemma sweep_run_schedule: "sweep n lo hi tmp = run_schedule n (sequential_schedule n lo hi) tmp"
  by (simp add: sweep_def loop_i_def for_loop_foldl sequential_schedule_def
      run_schedule_concat run_schedule_row)

lemma sweep_chain4: "sweep 4 0 4 chain4 = [[0, 1, 1, 1], [0, 0, 1, 1], [0, 0, 0, 1], [0, 0, 0, 0]]"
  by code_simp

lemma omp_chain4:
  "run_schedule 4 omp_schedule chain4 = [[0, 1, 1, 0], [0, 0, 1, 1], [0, 0, 0, 1], [0, 0, 0, 0]]"
  by code_simp

lemma omp_schedule_threads:
  "filter (\<lambda>(k, i). k < 2) omp_schedule = filter (\<lambda>(k, i). k < 2) (sequential_schedule 4 0 4)"
  "filter (\<lambda>(k, i). 2 \<le> k) omp_schedule = filter (\<lambda>(k, i). 2 \<le> k) (sequential_schedule 4 0 4)"
  by code_simp+

lemma run_schedule_Nil [simp]: "run_schedule n [] t = t"
  by (simp add: run_schedule_def)

lemma run_schedule_Cons [simp]:
  "run_schedule n ((k, i) # s) t = run_schedule n s (loop_j n k i t)"
  by (simp add: run_schedule_def)

lemma valid_schedule_Nil [simp]: "valid_schedule n lo hi []"
  by (simp add: valid_schedule_def)

lemma valid_schedule_Cons [simp]:
  "valid_schedule n lo hi ((k, i) # s) \<longleftrightarrow> k < n \<and> lo \<le> i \<and> i < hi \<and> valid_schedule n lo hi s"
  by (simp add: valid_schedule_def)

lemma valid_sequential_schedule: "valid_schedule n lo hi (sequential_schedule n lo hi)"
  by (auto simp: valid_schedule_def sequential_schedule_def list_all_iff)

lemma schedules_okD:
  "schedules_ok n nprocs sched \<Longrightarrow> rank < nprocs \<Longrightarrow>
   valid_schedule n (stripe n nprocs * rank) (stripe n nprocs * (rank + 1)) (sched rank)"
  by (simp add: schedules_ok_def list_all_iff)

lemma schedules_ok_program_order: "schedules_ok n nprocs (program_order n nprocs)"
  by (simp add: schedules_ok_def list_all_iff program_order_def valid_sequential_schedule)

text \<open>One pass of the \<open>j\<close> loop.\<close>

lemma wf_loop_j: "wf_matrix n t \<Longrightarrow> i < n \<Longrightarrow> k < n \<Longrightarrow> wf_matrix n (loop_j n k i t)"
  by (rule wf_matrixI) (simp_all add: loop_j_eq wf_matrix_length wf_matrix_nth nth_list_update)

lemma loop_j_frame:
  "wf_matrix n t \<Longrightarrow> i < n \<Longrightarrow> k < n \<Longrightarrow> i' \<noteq> i \<Longrightarrow> loop_j n k i t ! i' = t ! i'"
  by (simp add: loop_j_eq)

lemma loop_j_cell:
  "wf_matrix n t \<Longrightarrow> i < n \<Longrightarrow> k < n \<Longrightarrow> i' < n \<Longrightarrow> j < n \<Longrightarrow>
   loop_j n k i t ! i' ! j =
     (if i' = i then c_lor (t ! i ! j) (c_land (t ! i ! k) (t ! k ! j)) else t ! i' ! j)"
  by (simp add: loop_j_eq wf_matrix_length relaxed_row_def nth_list_update)

lemma run_schedule_wf:
  "wf_matrix n t \<Longrightarrow> hi \<le> n \<Longrightarrow> valid_schedule n lo hi s \<Longrightarrow> wf_matrix n (run_schedule n s t)"
proof (induction s arbitrary: t)
  case Nil
  then show ?case by simp
next
  case (Cons p s)
  obtain k i where p: "p = (k, i)" by (cases p)
  show ?case using Cons by (simp add: p wf_loop_j)
qed

lemma run_schedule_frame:
  "wf_matrix n t \<Longrightarrow> hi \<le> n \<Longrightarrow> valid_schedule n lo hi s \<Longrightarrow>
   \<not> (lo \<le> i' \<and> i' < hi) \<Longrightarrow> run_schedule n s t ! i' = t ! i'"
proof (induction s arbitrary: t)
  case Nil
  then show ?case by simp
next
  case (Cons p s)
  obtain k i where p: "p = (k, i)" by (cases p)
  have v: "k < n" "lo \<le> i" "i < hi" "valid_schedule n lo hi s" using Cons.prems by (simp_all add: p)
  have i: "i < n" using v Cons.prems by simp
  have ne: "i' \<noteq> i" using v Cons.prems by auto
  have "run_schedule n s (loop_j n k i t) ! i' = loop_j n k i t ! i'"
    using Cons.prems v i by (intro Cons.IH wf_loop_j)
  then show ?case using Cons.prems v i ne by (simp add: p loop_j_frame)
qed

lemma run_schedule_mono:
  "wf_matrix n t \<Longrightarrow> hi \<le> n \<Longrightarrow> valid_schedule n lo hi s \<Longrightarrow> i' < n \<Longrightarrow> j < n \<Longrightarrow>
   t ! i' ! j \<noteq> 0 \<Longrightarrow> run_schedule n s t ! i' ! j \<noteq> 0"
proof (induction s arbitrary: t)
  case Nil
  then show ?case by simp
next
  case (Cons p s)
  obtain k i where p: "p = (k, i)" by (cases p)
  have v: "k < n" "lo \<le> i" "i < hi" "valid_schedule n lo hi s" using Cons.prems by (simp_all add: p)
  have i: "i < n" using v Cons.prems by simp
  have "loop_j n k i t ! i' ! j \<noteq> 0"
    using Cons.prems v i by (auto simp: loop_j_cell c_lor_def)
  then have "run_schedule n s (loop_j n k i t) ! i' ! j \<noteq> 0"
    using Cons.prems v i by (intro Cons.IH wf_loop_j)
  then show ?case by (simp add: p)
qed

lemma run_schedule_sound:
  "wf_matrix n t \<Longrightarrow> hi \<le> n \<Longrightarrow> valid_schedule n lo hi s \<Longrightarrow>
   (\<And>i j. i < n \<Longrightarrow> j < n \<Longrightarrow> t ! i ! j \<noteq> 0 \<Longrightarrow> (i, j) \<in> E\<^sup>+) \<Longrightarrow>
   i' < n \<Longrightarrow> j' < n \<Longrightarrow> run_schedule n s t ! i' ! j' \<noteq> 0 \<Longrightarrow> (i', j') \<in> E\<^sup>+"
proof (induction s arbitrary: t)
  case Nil
  then show ?case by simp
next
  case (Cons p s)
  obtain k i where p: "p = (k, i)" by (cases p)
  have v: "k < n" "lo \<le> i" "i < hi" "valid_schedule n lo hi s" using Cons.prems by (simp_all add: p)
  have i: "i < n" using v Cons.prems by simp
  have step: "(x, y) \<in> E\<^sup>+" if "x < n" "y < n" "loop_j n k i t ! x ! y \<noteq> 0" for x y
  proof (cases "x = i")
    case False
    then show ?thesis using that Cons.prems(1,4) i v(1) by (simp add: loop_j_cell)
  next
    case True
    then have "t ! i ! y \<noteq> 0 \<or> (t ! i ! k \<noteq> 0 \<and> t ! k ! y \<noteq> 0)"
      using that Cons.prems(1) i v(1)
      by (auto simp: loop_j_cell c_lor_def c_land_def split: if_splits)
    then show ?thesis
    proof
      assume "t ! i ! y \<noteq> 0"
      then show ?thesis using Cons.prems(4) [of i y] i that True by simp
    next
      assume "t ! i ! k \<noteq> 0 \<and> t ! k ! y \<noteq> 0"
      then have "(i, k) \<in> E\<^sup>+" "(k, y) \<in> E\<^sup>+"
        using Cons.prems(4) i v(1) that by simp_all
      then show ?thesis using True by (auto intro: trancl_trans)
    qed
  qed
  have "run_schedule n s (loop_j n k i t) ! i' ! j' \<noteq> 0" using Cons.prems by (simp add: p)
  then show ?case
    using Cons.IH [of "loop_j n k i t"] Cons.prems(1,2,5,6) v i step by (simp add: wf_loop_j)
qed

lemma bin_loop_j:
  assumes "wf_matrix n t" "i < n" "k < n" "bin_matrix t"
  shows "bin_matrix (loop_j n k i t)"
proof (rule bin_matrixI)
  fix x y
  assume x: "x < length (loop_j n k i t)" and y: "y < length (loop_j n k i t ! x)"
  have wf: "wf_matrix n (loop_j n k i t)" using assms by (simp add: wf_loop_j)
  have x': "x < n" using x wf by (simp add: wf_matrix_length)
  have y': "y < n" using y wf x' by (simp add: wf_matrix_nth)
  have "t ! x ! y = 0 \<or> t ! x ! y = 1"
    using bin_matrix_cell [OF assms(4), of x y] assms(1) x' y'
    by (simp add: wf_matrix_length wf_matrix_nth)
  then show "loop_j n k i t ! x ! y = 0 \<or> loop_j n k i t ! x ! y = 1"
    using assms x' y' c_lor_bin by (simp add: loop_j_cell)
qed

lemma run_schedule_bin:
  "wf_matrix n t \<Longrightarrow> hi \<le> n \<Longrightarrow> valid_schedule n lo hi s \<Longrightarrow> bin_matrix t \<Longrightarrow>
   bin_matrix (run_schedule n s t)"
proof (induction s arbitrary: t)
  case Nil
  then show ?case by simp
next
  case (Cons p s)
  obtain k i where p: "p = (k, i)" by (cases p)
  have v: "k < n" "lo \<le> i" "i < hi" "valid_schedule n lo hi s" using Cons.prems by (simp_all add: p)
  have i: "i < n" using v Cons.prems by simp
  show ?case using Cons.prems v i by (simp add: p Cons.IH wf_loop_j bin_loop_j)
qed

section \<open>The count and the transfer of buffers\<close>

lemma mpi_count_exact:
  assumes "n * n < 2 ^ 31"
  shows "mpi_count n = int (n * n)"
proof -
  define k where "k = int (n * n)"
  have "k < 2 ^ 31" using assms unfolding k_def
    by (metis of_nat_less_iff of_nat_numeral of_nat_power)
  moreover have "0 \<le> k" unfolding k_def by (rule of_nat_0_le_iff)
  then have "- (2 ^ 31) \<le> k" by simp
  ultimately have "signed_take_bit (31::nat) k = k"
    by (intro signed_take_bit_int_eq_self)
  moreover have "(word_of_nat (n * n) :: 32 word) = word_of_int k"
    unfolding k_def by (simp only: word_of_int_nat of_nat_0_le_iff nat_int)
  ultimately have "sint (word_of_nat (n * n) :: 32 word) = k"
    by (simp only: sint_sbintrunc') simp
  then show ?thesis by (simp only: mpi_count_def k_def)
qed

lemma drop_concat_rows:
  "\<forall>r \<in> set m. length r = n \<Longrightarrow> drop (i * n) (concat m) = concat (drop i m)"
proof (induction m arbitrary: i)
  case Nil
  then show ?case by simp
next
  case (Cons r m)
  show ?case
  proof (cases i)
    case 0
    then show ?thesis by simp
  next
    case (Suc i')
    then show ?thesis using Cons by simp
  qed
qed

lemma length_concat_rows: "\<forall>r \<in> set m. length r = n \<Longrightarrow> length (concat m) = length m * n"
  by (induction m) simp_all

lemma wf_matrix_rows: "wf_matrix n m \<Longrightarrow> \<forall>r \<in> set m. length r = n"
  by (simp add: wf_matrix_def list_all_iff)

lemma length_concat_wf: "wf_matrix n m \<Longrightarrow> length (concat m) = n * n"
  using length_concat_rows [OF wf_matrix_rows] by (simp add: wf_matrix_length)

lemma unflat_concat:
  assumes "wf_matrix n m"
  shows "unflat n (concat m @ ys) = m"
proof (rule nth_equalityI)
  show "length (unflat n (concat m @ ys)) = length m"
    using assms by (simp add: unflat_def wf_matrix_length)
next
  fix i assume "i < length (unflat n (concat m @ ys))"
  then have i: "i < n" by (simp add: unflat_def)
  then have il: "i < length m" using assms by (simp add: wf_matrix_length)
  have le: "i * n \<le> length (concat m)"
    using length_concat_wf [OF assms] i by simp
  have "drop (i * n) (concat m @ ys) = concat (drop i m) @ ys"
    using le drop_concat_rows [OF wf_matrix_rows [OF assms], of i] by simp
  also have "drop i m = m ! i # drop (Suc i) m"
    using il by (simp add: Cons_nth_drop_Suc)
  finally have "take n (drop (i * n) (concat m @ ys)) = m ! i"
    using wf_matrix_nth [OF assms i] by simp
  then show "unflat n (concat m @ ys) ! i = m ! i"
    using i by (simp add: unflat_def)
qed

lemma mpi_put_all: "wf_matrix n src \<Longrightarrow> mpi_put n (n * n) src dst = src"
  by (simp add: mpi_put_def length_concat_wf unflat_concat)

lemma mpi_put_none: "wf_matrix n dst \<Longrightarrow> mpi_put n 0 src dst = dst"
  using unflat_concat [of n dst "[]"] by (simp add: mpi_put_def)

lemma wf_zeros: "wf_matrix n (zeros n)"
  by (simp add: wf_matrix_def zeros_def list_all_length)

lemma wf_ones: "wf_matrix n (ones n)"
  by (simp add: wf_matrix_def ones_def list_all_length)

lemma bin_zeros: "bin_matrix (zeros n)"
  by (simp add: bin_matrix_def zeros_def list_all_length)


lemma zeros_cell: "i < n \<Longrightarrow> j < n \<Longrightarrow> zeros n ! i ! j = 0"
  by (simp add: zeros_def)

lemma ones_cell: "i < n \<Longrightarrow> j < n \<Longrightarrow> ones n ! i ! j = 1"
  by (simp add: ones_def)

section \<open>Runs whose count is \<open>n * n\<close>\<close>

lemma received_exact:
  assumes "n * n < 2 ^ 31" and "wf_matrix n a"
  shows "received n a tmp0 rank = a"
  using assms by (simp add: received_def mpi_count_exact init_copy_eq mpi_put_all del: of_nat_mult)

lemma worker_copy_omp_exact:
  "n * n < 2 ^ 31 \<Longrightarrow> wf_matrix n a \<Longrightarrow>
   worker_copy_omp n sched a tmp0 rank = run_schedule n (sched rank) a"
  by (simp add: worker_copy_omp_def received_exact)

lemma worker_copy_omp_program_order:
  assumes "n * n < 2 ^ 31" and "wf_matrix n a" and "sched rank = program_order n nprocs rank"
  shows "worker_copy_omp n sched a tmp0 rank = worker_copy n nprocs rank a"
  using assms
  by (simp add: worker_copy_omp_exact program_order_def worker_copy_def init_copy_eq
      sweep_run_schedule)

text \<open>The bitwise or of \<open>nprocs\<close> buffers \<open>cp 0, \<dots>, cp (nprocs - 1)\<close>.\<close>

lemma wf_copies:
  assumes "\<And>rank. rank < nprocs \<Longrightarrow> wf_matrix n (cp rank)" and "0 < nprocs"
  shows "wf_matrix n (reduce_bor (cp 0) (map cp [1..<nprocs]))"
  using assms by (intro wf_reduce_bor) (simp_all add: list_all_iff)

lemma copies_cell:
  assumes "\<And>rank. rank < nprocs \<Longrightarrow> wf_matrix n (cp rank)" and "0 < nprocs"
    and "i < n" and "j < n"
  shows "reduce_bor (cp 0) (map cp [1..<nprocs]) ! i ! j =
    foldl (OR) (cp 0 ! i ! j) (map (\<lambda>rank. cp rank ! i ! j) [1..<nprocs])"
proof -
  have "reduce_bor (cp 0) (map cp [1..<nprocs]) ! i ! j =
      foldl (OR) (cp 0 ! i ! j) (map (\<lambda>y. y ! i ! j) (map cp [1..<nprocs]))"
    using assms by (intro reduce_bor_cell) (simp_all add: list_all_iff)
  then show ?thesis by (simp add: o_def)
qed

lemma copies_nonzero:
  assumes "\<And>rank. rank < nprocs \<Longrightarrow> wf_matrix n (cp rank)" and "0 < nprocs"
    and "i < n" and "j < n"
  shows "reduce_bor (cp 0) (map cp [1..<nprocs]) ! i ! j \<noteq> 0 \<longleftrightarrow>
    (\<exists>rank<nprocs. cp rank ! i ! j \<noteq> 0)"
proof -
  have eq: "reduce_bor (cp 0) (map cp [1..<nprocs]) ! i ! j =
      foldl (OR) (cp 0 ! i ! j) (map (\<lambda>rank. cp rank ! i ! j) [1..<nprocs])"
    by (rule copies_cell) (use assms in simp_all)
  show ?thesis
    unfolding eq foldl_or_nonzero
    using ranks_split [OF assms(2), of "\<lambda>r. cp r ! i ! j \<noteq> 0"] by auto
qed

lemma copies_bin:
  assumes "\<And>rank. rank < nprocs \<Longrightarrow> wf_matrix n (cp rank)" and "0 < nprocs"
    and "i < n" and "j < n"
    and "\<And>rank. rank < nprocs \<Longrightarrow> cp rank ! i ! j = 0 \<or> cp rank ! i ! j = 1"
  shows "reduce_bor (cp 0) (map cp [1..<nprocs]) ! i ! j = 0
    \<or> reduce_bor (cp 0) (map cp [1..<nprocs]) ! i ! j = 1"
proof -
  have eq: "reduce_bor (cp 0) (map cp [1..<nprocs]) ! i ! j =
      foldl (OR) (cp 0 ! i ! j) (map (\<lambda>rank. cp rank ! i ! j) [1..<nprocs])"
    by (rule copies_cell) (use assms in simp_all)
  have "foldl (OR) (cp 0 ! i ! j) (map (\<lambda>rank. cp rank ! i ! j) [1..<nprocs]) = 0
      \<or> foldl (OR) (cp 0 ! i ! j) (map (\<lambda>rank. cp rank ! i ! j) [1..<nprocs]) = 1"
    using assms(2,5) by (intro foldl_or_bin) auto
  then show ?thesis by (simp only: eq)
qed

lemma copies_row_same:
  assumes "\<And>rank. rank < nprocs \<Longrightarrow> wf_matrix n (cp rank)" and "0 < nprocs" and "i < n"
    and "\<And>rank. rank < nprocs \<Longrightarrow> cp rank ! i = r"
  shows "reduce_bor (cp 0) (map cp [1..<nprocs]) ! i = r"
  using assms by (intro reduce_bor_row_same) (simp_all add: list_all_iff)

lemma mpi_reduce_exact:
  "n * n < 2 ^ 31 \<Longrightarrow> wf_matrix n (reduce_bor root others) \<Longrightarrow>
   mpi_reduce n root others c0 = reduce_bor root others"
  by (simp add: mpi_reduce_def mpi_count_exact mpi_put_all del: of_nat_mult)

lemma warshall_run_exact:
  assumes "n * n < 2 ^ 31" and "0 < nprocs"
    and "\<And>rank. rank < nprocs \<Longrightarrow> wf_matrix n (worker_copy_omp n sched a tmp0 rank)"
  shows "warshall_run n nprocs sched a tmp0 c0 =
    Some (reduce_bor (worker_copy_omp n sched a tmp0 0)
      (map (worker_copy_omp n sched a tmp0) [1..<nprocs]))"
proof -
  have "wf_matrix n (reduce_bor (worker_copy_omp n sched a tmp0 0)
      (map (worker_copy_omp n sched a tmp0) [1..<nprocs]))"
    using assms(3,2) by (rule wf_copies)
  then show ?thesis
    using assms(1) by (simp add: warshall_run_def mpi_reduce_exact mpi_count_exact del: of_nat_mult)
qed

text \<open>Working copies under any schedule that stays within the stripe.\<close>

lemma wf_worker_copy_omp:
  assumes "n * n < 2 ^ 31" and "wf_matrix n a" and "schedules_ok n nprocs sched"
    and "rank < nprocs"
  shows "wf_matrix n (worker_copy_omp n sched a tmp0 rank)"
  unfolding worker_copy_omp_exact [OF assms(1,2)]
  using assms(2) stripe_bound [OF assms(4)] schedules_okD [OF assms(3,4)]
  by (rule run_schedule_wf)

lemma worker_copy_omp_frame:
  assumes "n * n < 2 ^ 31" and "wf_matrix n a" and "schedules_ok n nprocs sched"
    and "rank < nprocs"
    and "\<not> (stripe n nprocs * rank \<le> i \<and> i < stripe n nprocs * (rank + 1))"
  shows "worker_copy_omp n sched a tmp0 rank ! i = a ! i"
  unfolding worker_copy_omp_exact [OF assms(1,2)]
  using assms(2) stripe_bound [OF assms(4)] schedules_okD [OF assms(3,4)] assms(5)
  by (rule run_schedule_frame)

lemma worker_copy_omp_mono:
  assumes "n * n < 2 ^ 31" and "wf_matrix n a" and "schedules_ok n nprocs sched"
    and "rank < nprocs" and "i < n" and "j < n" and "a ! i ! j \<noteq> 0"
  shows "worker_copy_omp n sched a tmp0 rank ! i ! j \<noteq> 0"
  unfolding worker_copy_omp_exact [OF assms(1,2)]
  using assms(2) stripe_bound [OF assms(4)] schedules_okD [OF assms(3,4)] assms(5,6,7)
  by (rule run_schedule_mono)

lemma worker_copy_omp_sound:
  assumes "n * n < 2 ^ 31" and "wf_matrix n a" and "schedules_ok n nprocs sched"
    and "rank < nprocs" and "i < n" and "j < n"
    and "worker_copy_omp n sched a tmp0 rank ! i ! j \<noteq> 0"
  shows "(i, j) \<in> (edges n a)\<^sup>+"
proof -
  have base: "(x, y) \<in> (edges n a)\<^sup>+" if "x < n" "y < n" "a ! x ! y \<noteq> 0" for x y
    using that by (auto simp: edges_def)
  have "run_schedule n (sched rank) a ! i ! j \<noteq> 0"
    using assms(7) unfolding worker_copy_omp_exact [OF assms(1,2)] .
  with assms(2) stripe_bound [OF assms(4)] schedules_okD [OF assms(3,4)] base assms(5,6)
  show ?thesis by (rule run_schedule_sound)
qed

lemma worker_copy_omp_bin:
  assumes "n * n < 2 ^ 31" and "wf_matrix n a" and "schedules_ok n nprocs sched"
    and "rank < nprocs" and "bin_matrix a" and "i < n" and "j < n"
  shows "worker_copy_omp n sched a tmp0 rank ! i ! j = 0
    \<or> worker_copy_omp n sched a tmp0 rank ! i ! j = 1"
proof -
  let ?c = "worker_copy_omp n sched a tmp0 rank"
  have wf: "wf_matrix n ?c" using assms(1-4) by (rule wf_worker_copy_omp)
  have "bin_matrix (run_schedule n (sched rank) a)"
    using assms(2) stripe_bound [OF assms(4)] schedules_okD [OF assms(3,4)] assms(5)
    by (rule run_schedule_bin)
  then have "bin_matrix ?c" by (simp only: worker_copy_omp_exact [OF assms(1,2)])
  moreover have "i < length ?c" "j < length (?c ! i)"
    using wf assms(6,7) by (simp_all add: wf_matrix_length wf_matrix_nth)
  ultimately show ?thesis by (rule bin_matrix_cell)
qed

lemma warshall_run_program_order:
  assumes "n * n < 2 ^ 31" and "0 < nprocs" and "wf_matrix n a"
    and "\<And>rank. rank < nprocs \<Longrightarrow> sched rank = program_order n nprocs rank"
  shows "warshall_run n nprocs sched a tmp0 c0 = Some (warshall n nprocs a)"
proof -
  have cp: "worker_copy_omp n sched a tmp0 rank = worker_copy n nprocs rank a"
    if "rank < nprocs" for rank
    using assms(1,3) assms(4) [OF that] by (rule worker_copy_omp_program_order)
  then have wf: "wf_matrix n (worker_copy_omp n sched a tmp0 rank)" if "rank < nprocs" for rank
    using that assms(3) by (simp add: wf_worker_copy)
  have m: "map (worker_copy_omp n sched a tmp0) [1..<nprocs] =
      map (\<lambda>rank. worker_copy n nprocs rank a) [1..<nprocs]"
    using cp by simp
  have "warshall_run n nprocs sched a tmp0 c0 =
      Some (reduce_bor (worker_copy_omp n sched a tmp0 0)
        (map (worker_copy_omp n sched a tmp0) [1..<nprocs]))"
    using assms(1,2) wf by (rule warshall_run_exact)
  then show ?thesis by (simp only: m cp [OF assms(2)] warshall_def)
qed

section \<open>Runs whose count is not \<open>n * n\<close>, and runs of a single worker\<close>

lemma warshall_run_count_0:
  "mpi_count n = 0 \<Longrightarrow> wf_matrix n c0 \<Longrightarrow> warshall_run n nprocs sched a tmp0 c0 = Some c0"
  by (simp add: warshall_run_def mpi_reduce_def mpi_put_none)

lemma warshall_run_count_negative:
  "mpi_count n < 0 \<Longrightarrow> warshall_run n nprocs sched a tmp0 c0 = None"
  by (simp add: warshall_run_def)

lemma mpi_count_65536: "mpi_count 65536 = 0"
  by (simp add: mpi_count_def)

lemma mpi_count_46341: "mpi_count 46341 < 0"
  by (simp add: mpi_count_def)

lemma warshall_run_65536:
  "wf_matrix 65536 c0 \<Longrightarrow> warshall_run 65536 nprocs sched a tmp0 c0 = Some c0"
  using mpi_count_65536 by (rule warshall_run_count_0)

lemma worker_copy_omp_root:
  "wf_matrix n a \<Longrightarrow> worker_copy_omp n sched a tmp0 0 = run_schedule n (sched 0) a"
  by (simp add: worker_copy_omp_def received_def init_copy_eq)

lemma warshall_run_single:
  assumes "n * n < 2 ^ 31" and "wf_matrix n a" and "wf_matrix n (run_schedule n (sched 0) a)"
  shows "warshall_run n 1 sched a tmp0 c0 = Some (run_schedule n (sched 0) a)"
proof -
  have "warshall_run n 1 sched a tmp0 c0 =
      Some (reduce_bor (worker_copy_omp n sched a tmp0 0)
        (map (worker_copy_omp n sched a tmp0) [1..<1]))"
    using assms by (intro warshall_run_exact) (simp_all add: worker_copy_omp_root)
  then show ?thesis using assms(2) by (simp add: reduce_bor_def worker_copy_omp_root)
qed

lemma warshall_run_omp_chain4:
  "warshall_run 4 1 omp_schedules chain4 tmp0 c0 =
     Some [[0, 1, 1, 0], [0, 0, 1, 1], [0, 0, 0, 1], [0, 0, 0, 0]]"
proof -
  have r: "run_schedule 4 (omp_schedules 0) chain4 =
      [[0, 1, 1, 0], [0, 0, 1, 1], [0, 0, 0, 1], [0, 0, 0, 0]]"
    by (simp only: omp_schedules_def omp_chain4)
  have "wf_matrix 4 (run_schedule 4 (omp_schedules 0) chain4)"
    unfolding r by (simp add: wf_matrix_def)
  then have "warshall_run 4 1 omp_schedules chain4 tmp0 c0 =
      Some (run_schedule 4 (omp_schedules 0) chain4)"
    using wf_chain4 by (intro warshall_run_single) simp_all
  then show ?thesis by (simp only: r)
qed

lemma chain4_reach: "(0, 3) \<in> (edges 4 chain4)\<^sup>+"
proof -
  have "path (edges 4 chain4) 0 [1, 2] 3" by (simp add: edges_def chain4_def)
  then show ?thesis by (rule path_trancl)
qed

lemma warshall_run_single_in_order:
  assumes "n * n < 2 ^ 31" and "wf_matrix n a" and "sched 0 = program_order n 1 0"
  shows "warshall_run n 1 sched a tmp0 c0 = Some (warshall n 1 a)"
  using assms by (intro warshall_run_program_order) simp_all

lemma warshall_1_omp_result:
  "warshall 4 (Suc 0) [[0, 1, 1, 0], [0, 0, 1, 1], [0, 0, 0, 1], [0, 0, 0, 0]] =
     [[0, 1, 1, 1], [0, 0, 1, 1], [0, 0, 0, 1], [0, 0, 0, 0]]"
  by code_simp

lemma warshall_run_copies:
  assumes "n * n < 2 ^ 31" and "0 < nprocs" and "wf_matrix n a"
    and "schedules_ok n nprocs sched"
  shows "warshall_run n nprocs sched a tmp0 c0 =
    Some (reduce_bor (worker_copy_omp n sched a tmp0 0)
      (map (worker_copy_omp n sched a tmp0) [1..<nprocs]))"
  using assms by (intro warshall_run_exact wf_worker_copy_omp)

lemma warshall_run_2_zigzag4:
  "warshall_run 4 2 (program_order 4 2) zigzag4 tmp0 c0 =
     Some [[0, 1, 1, 0], [0, 0, 0, 1], [0, 1, 0, 1], [0, 0, 0, 0]]"
proof -
  have "warshall_run 4 2 (program_order 4 2) zigzag4 tmp0 c0 = Some (warshall 4 2 zigzag4)"
    using wf_zigzag4 by (intro warshall_run_program_order) simp_all
  then show ?thesis by (simp only: warshall_2_zigzag4)
qed

lemma multi_worker_sound_lemma:
  assumes "n * n < 2 ^ 31" and "0 < nprocs" and "wf_matrix n a" and "bin_matrix a"
    and "schedules_ok n nprocs sched" and "i < n" and "j < n"
  shows "\<exists>c. warshall_run n nprocs sched a tmp0 c0 = Some c \<and>
        (c ! i ! j = 1 \<longrightarrow> (i, j) \<in> (edges n a)\<^sup>+)"
proof -
  let ?cp = "worker_copy_omp n sched a tmp0"
  let ?c = "reduce_bor (?cp 0) (map ?cp [1..<nprocs])"
  have run: "warshall_run n nprocs sched a tmp0 c0 = Some ?c"
    using assms(1,2,3,5) by (rule warshall_run_copies)
  have wf: "wf_matrix n (?cp rank)" if "rank < nprocs" for rank
    using assms(1,3,5) that by (rule wf_worker_copy_omp)
  have "(i, j) \<in> (edges n a)\<^sup>+" if "?c ! i ! j = 1"
  proof -
    from that have "?c ! i ! j \<noteq> 0" by simp
    then obtain rank where "rank < nprocs" "?cp rank ! i ! j \<noteq> 0"
      using copies_nonzero [of nprocs n ?cp i j, OF wf assms(2,6,7)] by blast
    then show ?thesis using assms(1,3,5,6,7) by (intro worker_copy_omp_sound)
  qed
  with run show ?thesis by blast
qed

lemma edges_zeros: "edges n (zeros n) = {}"
  by (auto simp: edges_def zeros_cell)






section \<open>The claims\<close>

text \<open>
  Claim C1. The claim is that a single worker leaves the transitive closure of the input
  on the coordinator, for every \<open>n\<close>. It holds when the count of the collectives is
  \<open>n * n\<close> and the sweep of the worker runs in program order (\<open>sched 0\<close> is \<open>program_order\<close>):
  then the run has a result, and its cell \<open>(i, j)\<close> is 1 when \<open>a[i][j] = 1\<close> or a path of
  length at least 1 leads from \<open>i\<close> to \<open>j\<close>, and 0 otherwise. The pairs joined by such a path
  are the transitive closure \<open>(edges n a)\<^sup>+\<close> (lemmas \<open>path_trancl\<close> and \<open>trancl_path\<close>), and
  the edges are the cells equal to 1 (lemma \<open>edges_bin\<close>).
\<close>

theorem single_worker_closure_in_order:
  assumes "n * n < 2 ^ 31" and "wf_matrix n a" and "bin_matrix a"
    and "sched 0 = program_order n 1 0" and "i < n" and "j < n"
  shows "\<exists>c. warshall_run n 1 sched a tmp0 c0 = Some c \<and>
    c ! i ! j = (if a ! i ! j = 1 \<or> (i, j) \<in> (edges n a)\<^sup>+ then 1 else 0)"
proof -
  have "warshall_run n 1 sched a tmp0 c0 = Some (warshall n 1 a)"
    using assms(1,2,4) by (rule warshall_run_single_in_order)
  moreover have "warshall n 1 a ! i ! j =
      (if a ! i ! j = 1 \<or> (i, j) \<in> (edges n a)\<^sup>+ then 1 else 0)"
    using assms(2,3,5,6) by (rule warshall_single_closure)
  ultimately show ?thesis by blast
qed

theorem single_worker_closure_in_order_witness:
  "(4::nat) * 4 < 2 ^ 31 \<and> wf_matrix 4 chain4 \<and> bin_matrix chain4
    \<and> (\<exists>c. warshall_run 4 1 (program_order 4 1) chain4 (zero_bufs 4) (zeros 4) = Some c
          \<and> c ! 0 ! 3 = 1)"
proof -
  have "\<exists>c. warshall_run 4 1 (program_order 4 1) chain4 (zero_bufs 4) (zeros 4) = Some c \<and>
      c ! 0 ! 3 = (if chain4 ! 0 ! 3 = 1 \<or> (0, 3) \<in> (edges 4 chain4)\<^sup>+ then 1 else 0)"
    using wf_chain4 bin_chain4 by (intro single_worker_closure_in_order) simp_all
  then show ?thesis using chain4_reach wf_chain4 bin_chain4 by simp
qed

text \<open>
  The claim as stated fails in two ways. For \<open>n = 65536\<close> the count is 0, \<^verbatim>\<open>MPI_Reduce\<close>
  writes nothing, and \<open>c\<close> keeps what it held: all 0 here, although \<open>a[0][0] = 1\<close>. And on the
  chain \<open>0 \<rightarrow> 1 \<rightarrow> 2 \<rightarrow> 3\<close> the interleaving \<open>omp_schedule\<close> of two threads leaves the cell
  \<open>(0, 3)\<close> at 0 although 3 is reachable from 0 (the defect of claim C2).
\<close>

theorem single_worker_closure_counterexample:
  "warshall_run 65536 1 (program_order 65536 1) (ones 65536) (zero_bufs 65536) (zeros 65536)
      = Some (zeros 65536)
    \<and> ones 65536 ! 0 ! 0 = 1 \<and> zeros 65536 ! 0 ! 0 = 0
    \<and> warshall_run 4 1 omp_schedules chain4 (zero_bufs 4) (zeros 4)
      = Some [[0, 1, 1, 0], [0, 0, 1, 1], [0, 0, 0, 1], [0, 0, 0, 0]]
    \<and> (0, 3) \<in> (edges 4 chain4)\<^sup>+"
  using warshall_run_65536 [OF wf_zeros] warshall_run_omp_chain4 chain4_reach
  by (simp add: ones_cell zeros_cell)

text \<open>
  Claim C2. The claim asks that the iterations of the \<open>k\<close> loop run in increasing order
  and that only the row loop is shared among threads. The pragma shares out the \<open>k\<close> loop.
  \<open>omp_schedule\<close> keeps the program order of each of the two threads, and the sequential
  schedule is the loop nest as written; on the chain \<open>0 \<rightarrow> 1 \<rightarrow> 2 \<rightarrow> 3\<close> the sequential
  sweep finds the path from 0 to 3, the interleaved one does not.
\<close>

theorem omp_k_loop_interleaving:
  "filter (\<lambda>(k, i). k < 2) omp_schedule = filter (\<lambda>(k, i). k < 2) (sequential_schedule 4 0 4)
    \<and> filter (\<lambda>(k, i). 2 \<le> k) omp_schedule = filter (\<lambda>(k, i). 2 \<le> k) (sequential_schedule 4 0 4)
    \<and> run_schedule 4 (sequential_schedule 4 0 4) chain4 = sweep 4 0 4 chain4
    \<and> sweep 4 0 4 chain4 ! 0 ! 3 = 1
    \<and> run_schedule 4 omp_schedule chain4 ! 0 ! 3 = 0"
proof -
  have "run_schedule 4 (sequential_schedule 4 0 4) chain4 = sweep 4 0 4 chain4"
    by (rule sweep_run_schedule [symmetric])
  moreover have "sweep 4 0 4 chain4 ! 0 ! 3 = 1" by (simp add: sweep_chain4)
  moreover have "run_schedule 4 omp_schedule chain4 ! 0 ! 3 = 0" by (simp add: omp_chain4)
  ultimately show ?thesis using omp_schedule_threads by blast
qed

theorem omp_k_loop_interleaving_witness:
  "run_schedule 4 omp_schedule chain4 \<noteq> sweep 4 0 4 chain4"
  using omp_k_loop_interleaving by auto

text \<open>
  Claim C3. When the count of the collectives is \<open>n * n\<close>, then for any number of workers
  and any schedule of their passes the run has a result, and a cell that is 1 in it stands
  for an edge or a path of length at least 1 of the input. With more than one worker the
  result can miss a reachable pair: on the chain \<open>0 \<rightarrow> 2 \<rightarrow> 1 \<rightarrow> 3\<close> two workers in program
  order leave the cell \<open>(0, 3)\<close> at 0.
\<close>

theorem multi_worker_sound_bounded:
  assumes "n * n < 2 ^ 31" and "0 < nprocs" and "wf_matrix n a" and "bin_matrix a"
    and "schedules_ok n nprocs sched" and "i < n" and "j < n"
  shows "(\<exists>c. warshall_run n nprocs sched a tmp0 c0 = Some c \<and>
        (c ! i ! j = 1 \<longrightarrow> (i, j) \<in> (edges n a)\<^sup>+))
    \<and> (0, 3) \<in> (edges 4 zigzag4)\<^sup>+
    \<and> warshall_run 4 2 (program_order 4 2) zigzag4 (zero_bufs 4) (zeros 4) =
        Some [[0, 1, 1, 0], [0, 0, 0, 1], [0, 1, 0, 1], [0, 0, 0, 0]]"
  using multi_worker_sound_lemma [OF assms, of tmp0 c0] zigzag4_reach warshall_run_2_zigzag4
  by blast

theorem multi_worker_sound_bounded_witness:
  "(4::nat) * 4 < 2 ^ 31 \<and> wf_matrix 4 zigzag4 \<and> bin_matrix zigzag4
    \<and> schedules_ok 4 2 (program_order 4 2) \<and> (0, 1) \<in> (edges 4 zigzag4)\<^sup>+"
proof -
  have "(\<exists>c. warshall_run 4 2 (program_order 4 2) zigzag4 (zero_bufs 4) (zeros 4) = Some c \<and>
        (c ! 0 ! 1 = 1 \<longrightarrow> (0, 1) \<in> (edges 4 zigzag4)\<^sup>+))
    \<and> (0, 3) \<in> (edges 4 zigzag4)\<^sup>+
    \<and> warshall_run 4 2 (program_order 4 2) zigzag4 (zero_bufs 4) (zeros 4) =
        Some [[0, 1, 1, 0], [0, 0, 0, 1], [0, 1, 0, 1], [0, 0, 0, 0]]"
    using wf_zigzag4 bin_zigzag4 schedules_ok_program_order
    by (intro multi_worker_sound_bounded) simp_all
  then have "(0, 1) \<in> (edges 4 zigzag4)\<^sup>+" by auto
  then show ?thesis using wf_zigzag4 bin_zigzag4 schedules_ok_program_order by simp
qed

text \<open>
  For \<open>n = 65536\<close> the count is 0 and \<open>c\<close> keeps what it held before the call: with all 1
  there, the result has a 1 at \<open>(0, 0)\<close> for an input without any edge.
\<close>

theorem multi_worker_sound_counterexample:
  "warshall_run 65536 1 (program_order 65536 1) (zeros 65536) (zero_bufs 65536) (ones 65536)
      = Some (ones 65536)
    \<and> ones 65536 ! 0 ! 0 = 1 \<and> (0, 0) \<notin> (edges 65536 (zeros 65536))\<^sup>+"
  using warshall_run_65536 [OF wf_ones] by (simp add: ones_cell edges_zeros)






text \<open>
  Claim C6. When the count of the collectives is \<open>n * n\<close>, then for any number of workers
  and any schedule the run has a result, and every cell of it is at least the
  corresponding cell of the input (as signed \<^verbatim>\<open>int\<close> values).
\<close>

theorem output_above_input_bounded:
  assumes "n * n < 2 ^ 31" and "0 < nprocs" and "wf_matrix n a" and "bin_matrix a"
    and "schedules_ok n nprocs sched" and "i < n" and "j < n"
  shows "\<exists>c. warshall_run n nprocs sched a tmp0 c0 = Some c \<and>
    sint (a ! i ! j) \<le> sint (c ! i ! j)"
proof -
  let ?cp = "worker_copy_omp n sched a tmp0"
  let ?c = "reduce_bor (?cp 0) (map ?cp [1..<nprocs])"
  have run: "warshall_run n nprocs sched a tmp0 c0 = Some ?c"
    using assms(1,2,3,5) by (rule warshall_run_copies)
  have wf: "wf_matrix n (?cp rank)" if "rank < nprocs" for rank
    using assms(1,3,5) that by (rule wf_worker_copy_omp)
  have a: "a ! i ! j = 0 \<or> a ! i ! j = 1"
    using bin_matrix_cell [OF assms(4), of i j] assms(3,6,7)
    by (simp add: wf_matrix_length wf_matrix_nth)
  have c: "?c ! i ! j = 0 \<or> ?c ! i ! j = 1"
    using wf assms(2,6,7)
  proof (rule copies_bin)
    fix rank assume "rank < nprocs"
    with assms(1,3,5) show "?cp rank ! i ! j = 0 \<or> ?cp rank ! i ! j = 1"
      using assms(4,6,7) by (rule worker_copy_omp_bin)
  qed
  have "sint (a ! i ! j) \<le> sint (?c ! i ! j)"
  proof (cases "a ! i ! j = 0")
    case True
    then show ?thesis using c by auto
  next
    case False
    then have "?cp 0 ! i ! j \<noteq> 0"
      using assms by (intro worker_copy_omp_mono) simp_all
    then have "?c ! i ! j \<noteq> 0"
      using copies_nonzero [of nprocs n ?cp i j, OF wf assms(2,6,7)] assms(2) by blast
    then show ?thesis using a c False by auto
  qed
  with run show ?thesis by blast
qed

theorem output_above_input_bounded_witness:
  "(4::nat) * 4 < 2 ^ 31 \<and> wf_matrix 4 zigzag4 \<and> bin_matrix zigzag4
    \<and> schedules_ok 4 2 (program_order 4 2) \<and> zigzag4 ! 2 ! 1 = 1
    \<and> (\<exists>c. warshall_run 4 2 (program_order 4 2) zigzag4 (zero_bufs 4) (zeros 4) = Some c
          \<and> 1 \<le> sint (c ! 2 ! 1))"
proof -
  have z: "zigzag4 ! 2 ! 1 = 1" by (simp add: zigzag4_def)
  have "\<exists>c. warshall_run 4 2 (program_order 4 2) zigzag4 (zero_bufs 4) (zeros 4) = Some c \<and>
      sint (zigzag4 ! 2 ! 1) \<le> sint (c ! 2 ! 1)"
    using wf_zigzag4 bin_zigzag4 schedules_ok_program_order
    by (intro output_above_input_bounded) simp_all
  then show ?thesis using z wf_zigzag4 bin_zigzag4 schedules_ok_program_order by simp
qed

text \<open>
  For \<open>n = 65536\<close> the count is 0 and \<open>c\<close> keeps what it held before the call: all 0 here,
  below the input cell \<open>a[0][0] = 1\<close>.
\<close>

theorem output_above_input_counterexample:
  "warshall_run 65536 2 (program_order 65536 2) (ones 65536) (zero_bufs 65536) (zeros 65536)
      = Some (zeros 65536)
    \<and> sint (ones 65536 ! 0 ! 0) = 1 \<and> sint (zeros 65536 ! 0 ! 0) = 0"
  using warshall_run_65536 [OF wf_zeros] by (simp add: ones_cell zeros_cell)

text \<open>
  Claim C7. The claim asks that a failed allocation of \<open>tmp\<close> on any worker ends the run
  with a diagnostic and exit status 1. The coordinator does so. On rank 1 of a run with two
  processes on a 4 by 4 matrix, a null \<open>tmp\<close> is not tested: it reaches \<^verbatim>\<open>MPI_Bcast\<close> as the
  receive buffer for 16 cells, and no diagnostic is printed.
\<close>

theorem worker_allocation_failure_unchecked:
  "warshall_proc 4 2 1 True True True chain4 = Null_buffer_used
    \<and> warshall_proc 4 2 0 True True True chain4 = Exit_1 (Could_not_alloc 16)"
  by (simp add: warshall_proc_def)

theorem worker_allocation_failure_unchecked_witness:
  "\<not> (\<exists>d. warshall_proc 4 2 1 True True True chain4 = Exit_1 d)"
  using worker_allocation_failure_unchecked by simp

text \<open>
  Claim C8. A row with index in \<open>[W * (n div W), n)\<close> lies in no worker's stripe and is
  left as it was in every working copy. When the count of the collectives is \<open>n * n\<close>,
  this holds of the working copies under any schedule, the run has a result, and that row
  of the result is the row of the input.
\<close>

theorem remainder_rows_bounded:
  assumes "wf_matrix n a" and "0 < nprocs" and "nprocs * (n div nprocs) \<le> i" and "i < n"
  shows "(\<forall>rank<nprocs. \<not> (stripe n nprocs * rank \<le> i \<and> i < stripe n nprocs * (rank + 1)))
    \<and> (\<forall>rank<nprocs. worker_copy n nprocs rank a ! i = a ! i)
    \<and> (n * n < 2 ^ 31 \<longrightarrow> schedules_ok n nprocs sched \<longrightarrow>
        (\<forall>rank<nprocs. worker_copy_omp n sched a tmp0 rank ! i = a ! i)
        \<and> (\<exists>c. warshall_run n nprocs sched a tmp0 c0 = Some c \<and> c ! i = a ! i))"
proof -
  let ?cp = "worker_copy_omp n sched a tmp0"
  let ?c = "reduce_bor (?cp 0) (map ?cp [1..<nprocs])"
  have unowned: "\<not> (stripe n nprocs * rank \<le> i \<and> i < stripe n nprocs * (rank + 1))"
    if "rank < nprocs" for rank
  proof -
    from that have "rank + 1 \<le> nprocs" by simp
    then have "stripe n nprocs * (rank + 1) \<le> stripe n nprocs * nprocs"
      by (rule mult_le_mono2)
    also have "\<dots> \<le> i" using assms(3) by (simp add: stripe_def mult.commute)
    finally show ?thesis by simp
  qed
  have seq: "worker_copy n nprocs rank a ! i = a ! i" if "rank < nprocs" for rank
    using assms(1) that assms(4) unowned [OF that] by (rule worker_copy_frame)
  have run: "(\<forall>rank<nprocs. ?cp rank ! i = a ! i)
      \<and> (\<exists>c. warshall_run n nprocs sched a tmp0 c0 = Some c \<and> c ! i = a ! i)"
    if b: "n * n < 2 ^ 31" and ok: "schedules_ok n nprocs sched"
  proof -
    have copy: "?cp rank ! i = a ! i" if "rank < nprocs" for rank
      using b assms(1) ok that unowned [OF that] by (rule worker_copy_omp_frame)
    have wf: "wf_matrix n (?cp rank)" if "rank < nprocs" for rank
      using b assms(1) ok that by (rule wf_worker_copy_omp)
    have "warshall_run n nprocs sched a tmp0 c0 = Some ?c"
      using b assms(2,1) ok by (rule warshall_run_copies)
    moreover have "?c ! i = a ! i" using wf assms(2,4) copy by (rule copies_row_same)
    ultimately show ?thesis using copy by blast
  qed
  from unowned seq run show ?thesis by blast
qed

theorem remainder_rows_bounded_witness:
  "wf_matrix 3 tail3 \<and> 2 * (3 div 2) \<le> (2::nat) \<and> (3::nat) * 3 < 2 ^ 31
    \<and> schedules_ok 3 2 (program_order 3 2)
    \<and> worker_copy 3 2 1 tail3 ! 2 = [1, 0, 0]
    \<and> worker_copy_omp 3 (program_order 3 2) tail3 (zero_bufs 3) 1 ! 2 = [1, 0, 0]
    \<and> (\<exists>c. warshall_run 3 2 (program_order 3 2) tail3 (zero_bufs 3) (zeros 3) = Some c
          \<and> c ! 2 = [1, 0, 0])"
proof -
  have t: "tail3 ! 2 = [1, 0, 0]" by (simp add: tail3_def)
  have ok: "schedules_ok 3 2 (program_order 3 2)" by (rule schedules_ok_program_order)
  have b: "(3::nat) * 3 < 2 ^ 31" by simp
  have "(\<forall>rank<2. \<not> (stripe 3 2 * rank \<le> 2 \<and> 2 < stripe 3 2 * (rank + 1)))
    \<and> (\<forall>rank<2. worker_copy 3 2 rank tail3 ! 2 = tail3 ! 2)
    \<and> ((3::nat) * 3 < 2 ^ 31 \<longrightarrow> schedules_ok 3 2 (program_order 3 2) \<longrightarrow>
        (\<forall>rank<2. worker_copy_omp 3 (program_order 3 2) tail3 (zero_bufs 3) rank ! 2 = tail3 ! 2)
        \<and> (\<exists>c. warshall_run 3 2 (program_order 3 2) tail3 (zero_bufs 3) (zeros 3) = Some c
              \<and> c ! 2 = tail3 ! 2))"
    using wf_tail3 by (intro remainder_rows_bounded) simp_all
  with ok b have "(\<forall>rank<2. worker_copy 3 2 rank tail3 ! 2 = tail3 ! 2)
    \<and> (\<forall>rank<2. worker_copy_omp 3 (program_order 3 2) tail3 (zero_bufs 3) rank ! 2 = tail3 ! 2)
    \<and> (\<exists>c. warshall_run 3 2 (program_order 3 2) tail3 (zero_bufs 3) (zeros 3) = Some c
          \<and> c ! 2 = tail3 ! 2)" by blast
  then show ?thesis using t wf_tail3 ok by simp
qed

text \<open>
  For \<open>n = 65536\<close> and three workers, row 65535 has no owner; the count is 0 and \<open>c\<close> keeps
  what it held before the call: all 0 here, while the input row is all 1.
\<close>

theorem remainder_rows_counterexample:
  "3 * (65536 div 3) \<le> (65535::nat) \<and> (65535::nat) < 65536
    \<and> warshall_run 65536 3 (program_order 65536 3) (ones 65536) (zero_bufs 65536)
        (zeros 65536) = Some (zeros 65536)
    \<and> ones 65536 ! 65535 ! 0 = 1 \<and> zeros 65536 ! 65535 ! 0 = 0"
  using warshall_run_65536 [OF wf_zeros] by (simp add: ones_cell zeros_cell)

text \<open>
  Claim C9. When the count of the collectives is \<open>n * n\<close> and the sweep of the single
  worker runs in program order, the core is idempotent: the run has a result, and the run
  on that result returns it. (The cells of \<open>a\<close> need not be in \<open>{0, 1}\<close> for this.)
\<close>

theorem single_worker_idempotent_in_order:
  assumes "n * n < 2 ^ 31" and "wf_matrix n a" and "sched 0 = program_order n 1 0"
  shows "\<exists>c. warshall_run n 1 sched a tmp0 c0 = Some c \<and>
    warshall_run n 1 sched c tmp1 c1 = Some c"
proof -
  have wf: "wf_matrix n (warshall n 1 a)" using assms(2) by (intro wf_warshall) simp_all
  have "warshall_run n 1 sched a tmp0 c0 = Some (warshall n 1 a)"
    using assms by (rule warshall_run_single_in_order)
  moreover have "warshall_run n 1 sched (warshall n 1 a) tmp1 c1 =
      Some (warshall n 1 (warshall n 1 a))"
    using assms(1) wf assms(3) by (rule warshall_run_single_in_order)
  moreover have "warshall n 1 (warshall n 1 a) = warshall n 1 a"
    using assms(2) by (rule warshall_single_idempotent)
  ultimately show ?thesis by simp
qed

theorem single_worker_idempotent_in_order_witness:
  "(4::nat) * 4 < 2 ^ 31 \<and> wf_matrix 4 chain4
    \<and> (\<exists>c. warshall_run 4 1 (program_order 4 1) chain4 (zero_bufs 4) (zeros 4) = Some c
          \<and> warshall_run 4 1 (program_order 4 1) c (zero_bufs 4) (ones 4) = Some c)"
proof -
  have "\<exists>c. warshall_run 4 1 (program_order 4 1) chain4 (zero_bufs 4) (zeros 4) = Some c
      \<and> warshall_run 4 1 (program_order 4 1) c (zero_bufs 4) (ones 4) = Some c"
    using wf_chain4 by (intro single_worker_idempotent_in_order) simp_all
  then show ?thesis using wf_chain4 by simp
qed

text \<open>
  The claim as stated fails in two ways. Under the interleaving \<open>omp_schedule\<close> the run on
  the chain \<open>0 \<rightarrow> 1 \<rightarrow> 2 \<rightarrow> 3\<close> returns a matrix that is not closed, and the run on that
  matrix changes it (the defect of claim C2). And for \<open>n = 46341\<close> the count is negative and
  the run has no result.
\<close>

theorem single_worker_idempotent_counterexample:
  "warshall_run 4 1 omp_schedules chain4 (zero_bufs 4) (zeros 4)
      = Some [[0, 1, 1, 0], [0, 0, 1, 1], [0, 0, 0, 1], [0, 0, 0, 0]]
    \<and> warshall_run 4 1 (program_order 4 1)
        [[0, 1, 1, 0], [0, 0, 1, 1], [0, 0, 0, 1], [0, 0, 0, 0]] (zero_bufs 4) (zeros 4)
      = Some [[0, 1, 1, 1], [0, 0, 1, 1], [0, 0, 0, 1], [0, 0, 0, 0]]
    \<and> warshall_run 46341 1 (program_order 46341 1) (zeros 46341) (zero_bufs 46341)
        (zeros 46341) = None"
proof -
  have wf: "wf_matrix 4 [[0, 1, 1, 0], [0, 0, 1, 1], [0, 0, 0, 1], [0, 0, 0, 0 :: cint]]"
    by (simp add: wf_matrix_def)
  have "warshall_run 4 1 (program_order 4 1)
        [[0, 1, 1, 0], [0, 0, 1, 1], [0, 0, 0, 1], [0, 0, 0, 0]] (zero_bufs 4) (zeros 4)
      = Some (warshall 4 1 [[0, 1, 1, 0], [0, 0, 1, 1], [0, 0, 0, 1], [0, 0, 0, 0]])"
    using wf by (intro warshall_run_single_in_order) simp_all
  then show ?thesis
    using warshall_run_omp_chain4 warshall_run_count_negative [OF mpi_count_46341]
    by (simp add: warshall_1_omp_result)
qed



end
